theory Spec2Isabelle
  imports
    Complex_Main
    "HOL-Library.AList"
    "HOL-Library.Char_ord"
    "HOL-Library.List_Lexorder"
begin

section \<open>Data model\<close>

text \<open>
  The source holds two modules side by side. The first samples in probability space
  (\<open>sample_table\<close>, \<open>sample_CRP\<close>, \<open>sample\<close>, \<open>prob_of_table\<close>,
  \<open>prob_of_words_given_table\<close>); the second builds the state (\<open>initialize_state\<close>)
  and samples in log space (\<open>sample_table\<close>, \<open>log_sample\<close>, \<open>log_prob_table\<close>,
  \<open>log_prob_words_given_table\<close>). \<open>remove_doc\<close> and \<open>add_doc\<close> are the same
  text in both. The two functions called \<open>sample_table\<close> are \<open>sample_table\<close>
  (probability space) and \<open>sample_table_log\<close> (log space) below. The prior-only
  simulator \<open>sample_CRP\<close> is not part of this development.

  Counters (\<open>num_docs\<close>, \<open>num_words\<close>, \<open>total_docs\<close>, \<open>W\<close>, the word counts) are
  integers. Where the source makes a NaN out of them (\<open>undefined--\<close> in \<open>remove_doc\<close>,
  \<open>num_words += undefined\<close>) the model stops with \<open>NaN_count\<close>: the source goes on
  with the NaN, the model does not follow it.
\<close>

record table =
  num_docs :: int
  num_words :: int
  word_counts :: "string \<rightharpoonup> int"

record state =
  assignments :: "string \<rightharpoonup> nat"
  tables :: "(nat \<times> table) list"
  total_docs :: int
  nextID :: nat
  W :: int
  alpha :: real
  beta :: real
  vocab :: "string \<rightharpoonup> int"

type_synonym corpus = "(string \<times> string list) list"

datatype error =
    TypeError   \<comment> \<open>a property read on \<open>undefined\<close>, or a call of something that is no function\<close>
  | NaN_count   \<comment> \<open>a counter would become NaN: the source goes on, the model stops\<close>

subsection \<open>Objects used as dictionaries\<close>

text \<open>
  \<open>assignments\<close>, \<open>word_counts\<close>, \<open>vocab\<close> and \<open>local_counts\<close> are plain objects
  (\<open>{}\<close>) whose keys are document identifiers and words, that is, data. A map
  \<open>string \<rightharpoonup> 'v\<close> holds the own properties of such an object; its prototype is
  \<open>Object.prototype\<close>, and three things follow that a dictionary would not do.

  \<^item> \<open>obj.hasOwnProperty(key)\<close> first looks \<open>hasOwnProperty\<close> up on \<open>obj\<close>. Once the
    key \<open>hasOwnProperty\<close> has been stored, the lookup finds the stored number, and
    the call throws a TypeError.
  \<^item> \<open>obj[key] = v\<close> with the key \<open>__proto__\<close> and a number or string \<open>v\<close> runs the
    inherited setter, which ignores such a value: nothing is stored (unless the object
    already has an own property of that name).
  \<^item> \<open>obj[key]\<close> for a key that is not an own property gives the member of
    \<open>Object.prototype\<close> of that name, if there is one: a function, or for \<open>__proto__\<close>
    the prototype object itself.

  The keys of \<open>state.tables\<close> and of the weights handed to \<open>sample\<close> are cluster
  identifiers, non-negative integers; such an object is an association list over
  \<open>nat\<close>, holding each key once, and \<open>for (k in obj)\<close> visits integer-like keys in
  ascending order, which is \<open>for_in\<close>. The corpus is the association list of its own
  properties in its enumeration order.
\<close>

definition has_own_property :: "(string \<rightharpoonup> 'v) \<Rightarrow> string \<Rightarrow> error + bool" where
  "has_own_property obj key =
     (if obj ''hasOwnProperty'' \<noteq> None then Inl TypeError else Inr (obj key \<noteq> None))"

definition store :: "(string \<rightharpoonup> 'v) \<Rightarrow> string \<Rightarrow> 'v \<Rightarrow> (string \<rightharpoonup> 'v)" where
  "store obj key v = (if key = ''__proto__'' \<and> obj key = None then obj else obj(key \<mapsto> v))"

datatype inherited =
    Function nat        \<comment> \<open>a built-in function, with its \<open>length\<close>\<close>
  | Prototype_object    \<comment> \<open>\<open>Object.prototype\<close> itself, the value of \<open>__proto__\<close>\<close>

definition object_prototype :: "string \<Rightarrow> inherited option" where
  "object_prototype key =
     (if key \<in> {''toString'', ''toLocaleString'', ''valueOf''} then Some (Function 0)
      else if key \<in> {''constructor'', ''hasOwnProperty'', ''isPrototypeOf'',
                      ''propertyIsEnumerable'', ''__lookupGetter__'', ''__lookupSetter__''}
        then Some (Function 1)
      else if key \<in> {''__defineGetter__'', ''__defineSetter__''} then Some (Function 2)
      else if key = ''__proto__'' then Some Prototype_object
      else None)"

text \<open>
  What \<open>corpus[docID]\<close> can be, as far as the code uses it (\<open>words.length\<close> and
  \<open>words[i]\<close> as a key). A function of length \<open>n\<close> has no indexed elements, so each
  \<open>words[i]\<close> is \<open>undefined\<close>, which as a property key is the string \<open>undefined\<close>: it
  behaves as the array of \<open>n\<close> such words. \<open>Object.prototype\<close> has no \<open>length\<close>: the
  loops over it do not run, and \<open>words.length\<close> is \<open>undefined\<close> in arithmetic.
\<close>

datatype words_value =
    Undefined
  | Words "string list"
  | No_length

definition corpus_get :: "corpus \<Rightarrow> string \<Rightarrow> words_value" where
  "corpus_get c docID =
     (case map_of c docID of
        Some ws \<Rightarrow> Words ws
      | None \<Rightarrow>
          (case object_prototype docID of
             Some (Function n) \<Rightarrow> Words (replicate n ''undefined'')
           | Some Prototype_object \<Rightarrow> No_length
           | None \<Rightarrow> Undefined))"

definition for_in :: "(nat \<times> 'v) list \<Rightarrow> (nat \<times> 'v) list" where
  "for_in obj = sort_key fst obj"

subsection \<open>Numbers of the samplers\<close>

text \<open>
  The likelihood functions compute with real numbers: \<open>Math.log\<close> is \<open>ln\<close>, and
  rounding is not represented, so a quotient with denominator zero and a logarithm of
  a number that is not positive are not the source's values there. The samplers
  compute with \<open>num\<close>: a real number, an infinity or NaN. An arithmetic result
  beyond the largest double is an infinity, comparisons with NaN are false; rounding
  and underflow are still not represented.
\<close>

definition max_double :: real where
  "max_double = (2 - 1 / 2 ^ 52) * 2 ^ 1023"

datatype num = Fin real | PInf | NInf | NaN

definition round_num :: "real \<Rightarrow> num" where
  "round_num r = (if r > max_double then PInf else if r < - max_double then NInf else Fin r)"

fun num_neg :: "num \<Rightarrow> num" where
  "num_neg (Fin a) = Fin (- a)"
| "num_neg PInf = NInf"
| "num_neg NInf = PInf"
| "num_neg NaN = NaN"

fun num_add :: "num \<Rightarrow> num \<Rightarrow> num" where
  "num_add (Fin a) (Fin b) = round_num (a + b)"
| "num_add NaN y = NaN"
| "num_add x NaN = NaN"
| "num_add PInf NInf = NaN"
| "num_add NInf PInf = NaN"
| "num_add PInf y = PInf"
| "num_add x PInf = PInf"
| "num_add NInf y = NInf"
| "num_add x NInf = NInf"

definition num_sub :: "num \<Rightarrow> num \<Rightarrow> num" where
  "num_sub x y = num_add x (num_neg y)"

fun num_sign :: "num \<Rightarrow> int" where
  "num_sign (Fin a) = (if 0 < a then 1 else if a < 0 then - 1 else 0)"
| "num_sign PInf = 1"
| "num_sign NInf = - 1"
| "num_sign NaN = 0"

fun num_mul :: "num \<Rightarrow> num \<Rightarrow> num" where
  "num_mul (Fin a) (Fin b) = round_num (a * b)"
| "num_mul NaN y = NaN"
| "num_mul x NaN = NaN"
| "num_mul x y =
     (if num_sign x * num_sign y = 0 then NaN
      else if num_sign x * num_sign y > 0 then PInf else NInf)"

fun num_exp :: "num \<Rightarrow> num" where
  "num_exp (Fin a) = round_num (exp a)"
| "num_exp PInf = PInf"
| "num_exp NInf = Fin 0"
| "num_exp NaN = NaN"

fun num_log :: "num \<Rightarrow> num" where
  "num_log (Fin a) = (if 0 < a then Fin (ln a) else if a = 0 then NInf else NaN)"
| "num_log PInf = PInf"
| "num_log NInf = NaN"
| "num_log NaN = NaN"

fun num_less :: "num \<Rightarrow> num \<Rightarrow> bool" where
  "num_less (Fin a) (Fin b) = (a < b)"
| "num_less NaN y = False"
| "num_less x NaN = False"
| "num_less x NInf = False"
| "num_less PInf y = False"
| "num_less NInf y = True"
| "num_less x PInf = True"

section \<open>Likelihood engine\<close>

definition prob_of_table :: "int \<Rightarrow> int \<Rightarrow> real \<Rightarrow> real" where
  "prob_of_table cnt tot al =
     (if cnt \<noteq> 0 then real_of_int cnt / (real_of_int tot + al)
      else al / (real_of_int tot + al))"

definition log_prob_table :: "int \<Rightarrow> int \<Rightarrow> real \<Rightarrow> real" where
  "log_prob_table cnt tot al =
     (if cnt \<noteq> 0 then ln (real_of_int cnt / (real_of_int tot + al))
      else ln (al / (real_of_int tot + al)))"

text \<open>
  The loop of \<open>prob_of_words_given_table\<close>: \<open>j\<close> is the position, \<open>local_counts\<close> the
  object of the occurrences seen so far in this document, \<open>prob\<close> the running product.
  Both \<open>hasOwnProperty\<close> calls can throw; \<open>local_counts[word] = 1\<close> stores nothing for
  the word \<open>__proto__\<close>.
\<close>

fun prob_loop ::
  "(string \<rightharpoonup> int) \<Rightarrow> int \<Rightarrow> real \<Rightarrow> int \<Rightarrow> nat \<Rightarrow> (string \<rightharpoonup> int) \<Rightarrow> real \<Rightarrow> string list
     \<Rightarrow> error + real"
where
  "prob_loop wc word_total be Wv j local_counts prob [] = Inr prob"
| "prob_loop wc word_total be Wv j local_counts prob (word # rest) =
     (case has_own_property wc word of
        Inl e \<Rightarrow> Inl e
      | Inr in_word_counts \<Rightarrow>
          (case has_own_property local_counts word of
             Inl e \<Rightarrow> Inl e
           | Inr in_local_counts \<Rightarrow>
               (let cnt = (case wc word of Some c \<Rightarrow> c | None \<Rightarrow> 0);
                    local_count = (case local_counts word of Some c \<Rightarrow> c | None \<Rightarrow> 0);
                    local_counts' = (case local_counts word of
                                       Some c \<Rightarrow> local_counts(word \<mapsto> c + 1)
                                     | None \<Rightarrow> store local_counts word 1)
                in prob_loop wc word_total be Wv (Suc j) local_counts'
                     (prob * ((real_of_int local_count + real_of_int cnt + be)
                              / (real j + real_of_int word_total + real_of_int Wv * be)))
                     rest)))"

definition prob_of_words_given_table ::
  "words_value \<Rightarrow> (string \<rightharpoonup> int) \<Rightarrow> int \<Rightarrow> real \<Rightarrow> int \<Rightarrow> error + real"
where
  "prob_of_words_given_table words wc word_total be Wv =
     (case words of
        Undefined \<Rightarrow> Inl TypeError
      | No_length \<Rightarrow> Inr 1
      | Words ws \<Rightarrow> prob_loop wc word_total be Wv 0 Map.empty 1 ws)"

fun log_prob_loop ::
  "(string \<rightharpoonup> int) \<Rightarrow> int \<Rightarrow> real \<Rightarrow> int \<Rightarrow> nat \<Rightarrow> (string \<rightharpoonup> int) \<Rightarrow> real \<Rightarrow> string list
     \<Rightarrow> error + real"
where
  "log_prob_loop wc word_total be Wv j local_counts log_prob [] = Inr log_prob"
| "log_prob_loop wc word_total be Wv j local_counts log_prob (word # rest) =
     (case has_own_property wc word of
        Inl e \<Rightarrow> Inl e
      | Inr in_word_counts \<Rightarrow>
          (case has_own_property local_counts word of
             Inl e \<Rightarrow> Inl e
           | Inr in_local_counts \<Rightarrow>
               (let cnt = (case wc word of Some c \<Rightarrow> c | None \<Rightarrow> 0);
                    local_count = (case local_counts word of Some c \<Rightarrow> c | None \<Rightarrow> 0);
                    local_counts' = (case local_counts word of
                                       Some c \<Rightarrow> local_counts(word \<mapsto> c + 1)
                                     | None \<Rightarrow> store local_counts word 1)
                in log_prob_loop wc word_total be Wv (Suc j) local_counts'
                     (log_prob + ln ((real_of_int local_count + real_of_int cnt + be)
                                     / (real j + real_of_int word_total + real_of_int Wv * be)))
                     rest)))"

definition log_prob_words_given_table ::
  "words_value \<Rightarrow> (string \<rightharpoonup> int) \<Rightarrow> int \<Rightarrow> real \<Rightarrow> int \<Rightarrow> error + real"
where
  "log_prob_words_given_table words wc word_total be Wv =
     (case words of
        Undefined \<Rightarrow> Inl TypeError
      | No_length \<Rightarrow> Inr 0
      | Words ws \<Rightarrow> log_prob_loop wc word_total be Wv 0 Map.empty 0 ws)"

section \<open>Sufficient-statistics store\<close>

text \<open>
  The loop of \<open>remove_doc\<close> over the words: \<open>table.word_counts[word]--\<close>, then the entry
  is deleted when it has reached zero. For a word that is no own property the
  decrement computes NaN; stored under \<open>__proto__\<close> that is ignored and the loop goes
  on, under any other word the source stores it and the model stops (\<open>Inl\<close>, with the
  counts as written so far).
\<close>

fun remove_words :: "string list \<Rightarrow> (string \<rightharpoonup> int) \<Rightarrow> (string \<rightharpoonup> int) + (string \<rightharpoonup> int)" where
  "remove_words [] wc = Inr wc"
| "remove_words (word # rest) wc =
     (case wc word of
        None \<Rightarrow> (if word = ''__proto__'' then remove_words rest wc else Inl wc)
      | Some c \<Rightarrow> remove_words rest (if c - 1 = 0 then wc(word := None) else wc(word \<mapsto> c - 1)))"

text \<open>
  \<open>remove_doc\<close>. With \<open>words\<close> undefined, \<open>words.length\<close> throws in the loop header,
  before anything is written. A document without a cluster throws at the first read
  through \<open>table\<close>, also before anything is written. With \<open>words\<close> the prototype
  object the loop does not run and \<open>num_words\<close> would become NaN. The state in \<open>Inl\<close>
  is the state at that point. \<open>total_docs\<close> is not touched.
\<close>

definition remove_doc :: "string \<Rightarrow> words_value \<Rightarrow> state \<Rightarrow> (error \<times> state) + state" where
  "remove_doc docID words s =
     (let tableID = assignments s docID;
          tbl = (case tableID of None \<Rightarrow> None | Some t \<Rightarrow> map_of (tables s) t)
      in case words of
           Undefined \<Rightarrow> Inl (TypeError, s)
         | No_length \<Rightarrow>
             (case tbl of None \<Rightarrow> Inl (TypeError, s) | Some tb \<Rightarrow> Inl (NaN_count, s))
         | Words ws \<Rightarrow>
             (case (tableID, tbl) of
                (Some t, Some tb) \<Rightarrow>
                  (case remove_words ws (word_counts tb) of
                     Inl wc \<Rightarrow>
                       Inl (NaN_count, s\<lparr>tables := AList.update t (tb\<lparr>word_counts := wc\<rparr>) (tables s)\<rparr>)
                   | Inr wc \<Rightarrow>
                       (let tb' = tb\<lparr>word_counts := wc,
                                      num_words := num_words tb - int (length ws),
                                      num_docs := num_docs tb - 1\<rparr>
                        in Inr (if num_docs tb' = 0
                                then s\<lparr>tables := AList.delete t (tables s)\<rparr>
                                else s\<lparr>tables := AList.update t tb' (tables s)\<rparr>)))
              | _ \<Rightarrow> Inl (TypeError, s)))"

text \<open>
  The loop of \<open>add_doc\<close> over the words. \<open>word_counts.hasOwnProperty(word)\<close> throws
  once the word \<open>hasOwnProperty\<close> has been counted (\<open>Inl\<close>, with the counts as written
  so far); \<open>word_counts[word] = 1\<close> stores nothing for the word \<open>__proto__\<close>.
\<close>

fun add_words :: "string list \<Rightarrow> (string \<rightharpoonup> int) \<Rightarrow> (string \<rightharpoonup> int) + (string \<rightharpoonup> int)" where
  "add_words [] wc = Inr wc"
| "add_words (word # rest) wc =
     (case has_own_property wc word of
        Inl e \<Rightarrow> Inl wc
      | Inr in_word_counts \<Rightarrow>
          add_words rest (case wc word of Some c \<Rightarrow> wc(word \<mapsto> c + 1) | None \<Rightarrow> store wc word 1))"

definition empty_table :: table where
  "empty_table = \<lparr>num_docs = 0, num_words = 0, word_counts = Map.empty\<rparr>"

text \<open>
  \<open>add_doc\<close>. The assignment and the fresh cluster are written before the loop, the
  counters after it, so a failure in between leaves them behind: the state in \<open>Inl\<close>
  is the state at that point.
\<close>

definition add_doc :: "string \<Rightarrow> words_value \<Rightarrow> nat \<Rightarrow> state \<Rightarrow> (error \<times> state) + state" where
  "add_doc docID words tableID s =
     (let s1 = s\<lparr>assignments := store (assignments s) docID tableID\<rparr>;
          s2 = (case map_of (tables s1) tableID of
                  None \<Rightarrow> s1\<lparr>nextID := nextID s1 + 1,
                              tables := AList.update tableID empty_table (tables s1)\<rparr>
                | Some _ \<Rightarrow> s1);
          tb = (case map_of (tables s2) tableID of Some t \<Rightarrow> t | None \<Rightarrow> empty_table)
      in case words of
           Undefined \<Rightarrow> Inl (TypeError, s2)
         | No_length \<Rightarrow>
             Inl (NaN_count,
                  s2\<lparr>tables := AList.update tableID (tb\<lparr>num_docs := num_docs tb + 1\<rparr>) (tables s2)\<rparr>)
         | Words ws \<Rightarrow>
             (case add_words ws (word_counts tb) of
                Inl wc \<Rightarrow>
                  Inl (TypeError,
                       s2\<lparr>tables := AList.update tableID (tb\<lparr>word_counts := wc\<rparr>) (tables s2)\<rparr>)
              | Inr wc \<Rightarrow>
                  Inr (s2\<lparr>tables := AList.update tableID
                                      (tb\<lparr>word_counts := wc,
                                          num_docs := num_docs tb + 1,
                                          num_words := num_words tb + int (length ws)\<rparr>)
                                      (tables s2),
                          total_docs := total_docs s2 + 1\<rparr>)))"

section \<open>Initialisation\<close>

text \<open>
  The state under construction is local to \<open>initialize_state\<close>: when the vocabulary
  count or \<open>add_doc\<close> throws, the caller gets the error and no state.
\<close>

fun count_vocab :: "string list \<Rightarrow> state \<Rightarrow> error + state" where
  "count_vocab [] s = Inr s"
| "count_vocab (word # rest) s =
     (case has_own_property (vocab s) word of
        Inl e \<Rightarrow> Inl e
      | Inr in_vocab \<Rightarrow>
          count_vocab rest
            (case vocab s word of
               Some c \<Rightarrow> s\<lparr>vocab := (vocab s)(word \<mapsto> c + 1)\<rparr>
             | None \<Rightarrow> s\<lparr>W := W s + 1, vocab := store (vocab s) word 1\<rparr>))"

fun init_loop :: "corpus \<Rightarrow> state \<Rightarrow> error + state" where
  "init_loop [] s = Inr s"
| "init_loop ((docID, words) # rest) s =
     (case count_vocab words s of
        Inl e \<Rightarrow> Inl e
      | Inr s' \<Rightarrow>
          (case add_doc docID (Words words) (nextID s') s' of
             Inl (e, s'') \<Rightarrow> Inl e
           | Inr s'' \<Rightarrow> init_loop rest s''))"

definition initialize_state :: "corpus \<Rightarrow> real \<Rightarrow> real \<Rightarrow> error + state" where
  "initialize_state c al be =
     init_loop c \<lparr>assignments = Map.empty, tables = [], total_docs = 0, nextID = 0,
                  W = 0, alpha = al, beta = be, vocab = Map.empty\<rparr>"

section \<open>Samplers\<close>

text \<open>
  \<open>sample\<close>: \<open>u\<close> is the value of \<open>Math.random()\<close>. \<open>sample_sum\<close> is the first loop and
  \<open>sample_walk\<close> the second; its \<open>key\<close> is the loop variable, still \<open>undefined\<close>
  (\<open>None\<close>) when the object is empty, and it is what the final \<open>return key\<close> gives when
  the threshold never goes negative.
\<close>

fun sample_sum :: "num \<Rightarrow> (nat \<times> real) list \<Rightarrow> num" where
  "sample_sum acc [] = acc"
| "sample_sum acc ((k, p) # rest) = sample_sum (num_add acc (Fin p)) rest"

fun sample_walk :: "num \<Rightarrow> nat option \<Rightarrow> (nat \<times> real) list \<Rightarrow> nat option" where
  "sample_walk threshold key [] = key"
| "sample_walk threshold key ((k, p) # rest) =
     (let threshold' = num_sub threshold (Fin p)
      in if num_less threshold' (Fin 0) then Some k else sample_walk threshold' (Some k) rest)"

definition sample_list :: "real \<Rightarrow> (nat \<times> real) list \<Rightarrow> nat option" where
  "sample_list u ps = sample_walk (num_mul (Fin u) (sample_sum (Fin 0) ps)) None ps"

definition sample :: "real \<Rightarrow> (nat \<times> real) list \<Rightarrow> nat option" where
  "sample u unnormalized_probabilities = sample_list u (for_in unnormalized_probabilities)"

text \<open>
  \<open>log_un_ps.sort()\<close> has no comparison function, so the elements are ordered by their
  string forms: the pair \<open>[x, id]\<close> prints as the number, a comma, the identifier.
  The printing of a number is a function of the host language, the parameter
  \<open>num2str\<close>; identifiers are non-negative integers and print in decimal.
\<close>

fun show_nat :: "nat \<Rightarrow> string" where
  "show_nat n = (if n < 10 then [''0123456789'' ! n]
                 else show_nat (n div 10) @ [''0123456789'' ! (n mod 10)])"

declare show_nat.simps [simp del]

definition js_sort :: "(real \<Rightarrow> string) \<Rightarrow> (real \<times> nat) list \<Rightarrow> (real \<times> nat) list" where
  "js_sort num2str xs = sort_key (\<lambda>(x, k). num2str x @ '','' @ show_nat k) xs"

definition log_sample_max :: "(real \<times> nat) list \<Rightarrow> real" where
  \<comment> \<open>\<open>var max = log_un_ps[0][0]\<close> on the sorted, non-empty array\<close>
  "log_sample_max sorted_ps = fst (hd sorted_ps)"

fun log_sum :: "real \<Rightarrow> num \<Rightarrow> (real \<times> nat) list \<Rightarrow> num" where
  \<comment> \<open>the first loop: \<open>sum += Math.exp(log_un_ps[i][0] - max)\<close>\<close>
  "log_sum mx acc [] = acc"
| "log_sum mx acc ((x, k) # rest) =
     log_sum mx (num_add acc (num_exp (num_sub (Fin x) (Fin mx)))) rest"

definition log_norm_const :: "(real \<times> nat) list \<Rightarrow> num" where
  "log_norm_const sorted_ps =
     num_add (Fin (log_sample_max sorted_ps))
       (num_log (log_sum (log_sample_max sorted_ps) (Fin 0) sorted_ps))"

text \<open>The second loop of \<open>log_sample\<close>; \<open>random\<close> is \<open>Math.log(Math.random())\<close>.\<close>

fun log_walk :: "real \<Rightarrow> num \<Rightarrow> num \<Rightarrow> num \<Rightarrow> (real \<times> nat) list \<Rightarrow> nat option" where
  "log_walk mx lnc random sum_of_exp [] = None"
| "log_walk mx lnc random sum_of_exp ((x, k) # rest) =
     (let sum_of_exp' = num_add sum_of_exp (num_exp (num_sub (Fin x) (Fin mx)));
          log_cumulative_prob = num_sub (num_add (Fin mx) (num_log sum_of_exp')) lnc
      in if num_less random log_cumulative_prob then Some k
         else log_walk mx lnc random sum_of_exp' rest)"

definition log_sample :: "(real \<Rightarrow> string) \<Rightarrow> real \<Rightarrow> (real \<times> nat) list \<Rightarrow> nat option" where
  \<comment> \<open>\<open>None\<close>: the TypeError of \<open>log_un_ps[0][0]\<close> on an empty array\<close>
  "log_sample num2str u log_un_ps =
     (let sorted_ps = js_sort num2str log_un_ps
      in case sorted_ps of
           [] \<Rightarrow> None
         | _ # _ \<Rightarrow>
             (case log_walk (log_sample_max sorted_ps) (log_norm_const sorted_ps)
                     (num_log (Fin u)) (Fin 0) sorted_ps of
                Some k \<Rightarrow> Some k
              | None \<Rightarrow> Some (snd (last sorted_ps))))"

section \<open>Reseating controller\<close>

text \<open>
  The loop over the clusters that computes one weight each; the first likelihood call
  that throws ends it.
\<close>

fun table_weights :: "(table \<Rightarrow> error + 'w) \<Rightarrow> (nat \<times> table) list \<Rightarrow> error + (nat \<times> 'w) list" where
  "table_weights weight [] = Inr []"
| "table_weights weight ((tableID, tb) # rest) =
     (case weight tb of
        Inl e \<Rightarrow> Inl e
      | Inr w \<Rightarrow>
          (case table_weights weight rest of
             Inl e \<Rightarrow> Inl e
           | Inr ws \<Rightarrow> Inr ((tableID, w) # ws)))"

text \<open>
  Both \<open>sample_table\<close> functions. Nothing is written to the state between
  \<open>remove_doc\<close> and \<open>add_doc\<close>, so a failure of a likelihood call leaves the state as
  \<open>remove_doc\<close> left it. The weights object always holds the key \<open>nextID\<close>, so
  \<open>sample\<close> returns a key.
\<close>

definition sample_table :: "string \<Rightarrow> corpus \<Rightarrow> real \<Rightarrow> state \<Rightarrow> (error \<times> state) + state" where
  "sample_table docID c u s =
     (let words = corpus_get c docID
      in case has_own_property (assignments s) docID of
           Inl e \<Rightarrow> Inl (e, s)
         | Inr seated \<Rightarrow>
             (case (if seated then remove_doc docID words s else Inr s) of
                Inl e \<Rightarrow> Inl e
              | Inr s1 \<Rightarrow>
                  (case table_weights
                          (\<lambda>tb. map_sum id
                                  (\<lambda>p_o_w. prob_of_table (num_docs tb) (total_docs s1) (alpha s1) * p_o_w)
                                  (prob_of_words_given_table words (word_counts tb) (num_words tb)
                                     (beta s1) (W s1)))
                          (for_in (tables s1)) of
                     Inl e \<Rightarrow> Inl (e, s1)
                   | Inr occupied \<Rightarrow>
                       (case prob_of_words_given_table words Map.empty 0 (beta s1) (W s1) of
                          Inl e \<Rightarrow> Inl (e, s1)
                        | Inr p_o_w \<Rightarrow>
                            (let unnormalized_probabilities =
                                   AList.update (nextID s1)
                                     (prob_of_table 0 (total_docs s1) (alpha s1) * p_o_w)
                                     occupied
                             in case sample u unnormalized_probabilities of
                                  None \<Rightarrow> Inl (TypeError, s1)
                                | Some tableID \<Rightarrow> add_doc docID words tableID s1)))))"

definition sample_table_log ::
  "(real \<Rightarrow> string) \<Rightarrow> string \<Rightarrow> corpus \<Rightarrow> real \<Rightarrow> state \<Rightarrow> (error \<times> state) + state"
where
  "sample_table_log num2str docID c u s =
     (let words = corpus_get c docID
      in case has_own_property (assignments s) docID of
           Inl e \<Rightarrow> Inl (e, s)
         | Inr seated \<Rightarrow>
             (case (if seated then remove_doc docID words s else Inr s) of
                Inl e \<Rightarrow> Inl e
              | Inr s1 \<Rightarrow>
                  (case table_weights
                          (\<lambda>tb. map_sum id
                                  (\<lambda>lpw. log_prob_table (num_docs tb) (total_docs s1) (alpha s1) + lpw)
                                  (log_prob_words_given_table words (word_counts tb) (num_words tb)
                                     (beta s1) (W s1)))
                          (for_in (tables s1)) of
                     Inl e \<Rightarrow> Inl (e, s1)
                   | Inr occupied \<Rightarrow>
                       (case log_prob_words_given_table words Map.empty 0 (beta s1) (W s1) of
                          Inl e \<Rightarrow> Inl (e, s1)
                        | Inr lpw \<Rightarrow>
                            (let log_un_ps =
                                   map (\<lambda>(tableID, w). (w, tableID)) occupied
                                   @ [(log_prob_table 0 (total_docs s1) (alpha s1) + lpw, nextID s1)]
                             in case log_sample num2str u log_un_ps of
                                  None \<Rightarrow> Inl (TypeError, s1)
                                | Some tableID \<Rightarrow> add_doc docID words tableID s1)))))"

section \<open>Runs\<close>

text \<open>
  \<open>then_do\<close> runs an operation on the state that an earlier one returned.
  \<open>outcome_state\<close> is the state object after a call, whether the call returned or
  threw.
\<close>

definition then_do :: "error + state \<Rightarrow> (state \<Rightarrow> (error \<times> state) + state) \<Rightarrow> error + state" where
  "then_do r f = (case r of Inl e \<Rightarrow> Inl e | Inr s \<Rightarrow> map_sum fst id (f s))"

definition outcome_state :: "(error \<times> state) + state \<Rightarrow> state" where
  "outcome_state r = (case r of Inl (e, s) \<Rightarrow> s | Inr s \<Rightarrow> s)"

text \<open>
  The states a run can be in: the state that \<open>initialize_state\<close> returns for the
  corpus, then any number of completed \<open>sample_table\<close> calls of either module, on any
  document identifier and with any draw. A call that throws makes no step, and neither
  does a call at which the model stops with \<open>NaN_count\<close> (in a run, the reseat of the
  identifier \<open>__proto__\<close>, which the source completes with \<open>num_words\<close> NaN).
  \<open>corpus_run\<close> are the runs that reseat documents of the corpus only.
\<close>

inductive reachable :: "corpus \<Rightarrow> real \<Rightarrow> real \<Rightarrow> state \<Rightarrow> bool" for c al be where
  init: "initialize_state c al be = Inr s \<Longrightarrow> reachable c al be s"
| reseat: "reachable c al be s \<Longrightarrow> sample_table docID c u s = Inr s' \<Longrightarrow> reachable c al be s'"
| reseat_log:
    "reachable c al be s \<Longrightarrow> sample_table_log num2str docID c u s = Inr s' \<Longrightarrow> reachable c al be s'"

inductive corpus_run :: "corpus \<Rightarrow> real \<Rightarrow> real \<Rightarrow> state \<Rightarrow> bool" for c al be where
  start: "initialize_state c al be = Inr s \<Longrightarrow> corpus_run c al be s"
| step: "corpus_run c al be s \<Longrightarrow> map_of c docID = Some ws
           \<Longrightarrow> sample_table docID c u s = Inr s' \<Longrightarrow> corpus_run c al be s'"
| step_log: "corpus_run c al be s \<Longrightarrow> map_of c docID = Some ws
           \<Longrightarrow> sample_table_log num2str docID c u s = Inr s' \<Longrightarrow> corpus_run c al be s'"

section \<open>The word likelihood as the specification writes it\<close>




section \<open>Concrete inputs\<close>

text \<open>The corpus of the specification's example, used with \<open>alpha = 1\<close>, \<open>beta = 0.5\<close>.\<close>

definition example_corpus :: corpus where
  "example_corpus = [(''d1'', [''a'', ''b'']), (''d2'', [''a'', ''a''])]"

definition example_state :: state where
  "example_state =
     \<lparr>assignments = [''d1'' \<mapsto> 0, ''d2'' \<mapsto> 1],
      tables = [(0, \<lparr>num_docs = 1, num_words = 2, word_counts = [''a'' \<mapsto> 1, ''b'' \<mapsto> 1]\<rparr>),
                (1, \<lparr>num_docs = 1, num_words = 2, word_counts = [''a'' \<mapsto> 2]\<rparr>)],
      total_docs = 2, nextID = 2, W = 2, alpha = 1, beta = 1/2,
      vocab = [''a'' \<mapsto> 3, ''b'' \<mapsto> 1]\<rparr>"

text \<open>
  The host's printing of a number, on the integers: the decimal digits, after a minus
  sign when negative. \<open>integer_to_string\<close> is used at integer arguments only.
\<close>

definition show_int :: "int \<Rightarrow> string" where
  "show_int i = (if i < 0 then CHR ''-'' # show_nat (nat (- i)) else show_nat (nat i))"

definition integer_to_string :: "real \<Rightarrow> string" where
  "integer_to_string x = show_int \<lfloor>x\<rfloor>"


section \<open>Auxiliary definitions\<close>

definition lookup0 :: "(string \<rightharpoonup> int) \<Rightarrow> string \<Rightarrow> int" where
  "lookup0 m w = (case m w of Some c \<Rightarrow> c | None \<Rightarrow> 0)"

definition bump :: "(string \<rightharpoonup> int) \<Rightarrow> string \<Rightarrow> (string \<rightharpoonup> int)" where
  "bump m w = (case m w of Some c \<Rightarrow> m(w \<mapsto> c + 1) | None \<Rightarrow> m(w \<mapsto> 1))"

definition loop_factor ::
  "(string \<rightharpoonup> int) \<Rightarrow> int \<Rightarrow> real \<Rightarrow> int \<Rightarrow> nat \<Rightarrow> (string \<rightharpoonup> int) \<Rightarrow> string list \<Rightarrow> nat \<Rightarrow> real" where
  "loop_factor wc word_total be Wv j lc ws i =
     (real_of_int (lookup0 lc (ws ! i)) + real (count_list (take i ws) (ws ! i))
        + real_of_int (lookup0 wc (ws ! i)) + be)
     / (real (j + i) + real_of_int word_total + real_of_int Wv * be)"

definition conservation_view :: "state \<Rightarrow> int \<times> nat \<times> int" where
  "conservation_view s = (total_docs s, card (dom (assignments s)), (\<Sum>(k, t) \<leftarrow> tables s. num_docs t))"

definition no_empty_cluster :: "state \<Rightarrow> bool" where
  "no_empty_cluster s = (\<forall>(k, t) \<in> set (tables s). 0 < num_docs t)"

text \<open>
  The two walks over the real numbers, without infinities: what \<open>sample_walk\<close> and
  \<open>log_walk\<close> compute as long as every intermediate result is within the double range.
\<close>

fun sample_walk_exact :: "real \<Rightarrow> nat option \<Rightarrow> (nat \<times> real) list \<Rightarrow> nat option" where
  "sample_walk_exact threshold key [] = key"
| "sample_walk_exact threshold key ((k, p) # rest) =
     (if threshold - p < 0 then Some k else sample_walk_exact (threshold - p) (Some k) rest)"

definition sample_list_exact :: "real \<Rightarrow> (nat \<times> real) list \<Rightarrow> nat option" where
  "sample_list_exact u ps = sample_walk_exact (u * sum_list (map snd ps)) None ps"


definition exp_sum :: "real \<Rightarrow> (real \<times> nat) list \<Rightarrow> real" where
  "exp_sum mx ps = sum_list (map (\<lambda>(x, k). exp (x - mx)) ps)"

text \<open>
  A plain corpus holds each document identifier once and uses neither \<open>hasOwnProperty\<close>
  nor \<open>__proto__\<close> as a document identifier or as a word.
\<close>

definition plain_name :: "string \<Rightarrow> bool" where
  "plain_name n = (n \<noteq> ''hasOwnProperty'' \<and> n \<noteq> ''__proto__'')"

definition plain_corpus :: "corpus \<Rightarrow> bool" where
  "plain_corpus c =
     (distinct (map fst c) \<and> (\<forall>(d, ws) \<in> set c. plain_name d \<and> (\<forall>w \<in> set ws. plain_name w)))"

text \<open>
  The bookkeeping that the store keeps, stated against the corpus. \<open>seated_at H s t\<close>
  are the documents outside \<open>H\<close> that \<open>assignments\<close> puts at cluster \<open>t\<close>;
  \<open>total_over\<close> adds a quantity over the corpus documents that a selection picks.
  \<open>consistent c H s\<close>: every seated document outside \<open>H\<close> is a corpus document at an
  existing cluster, and every cluster holds exactly the word counts and the number of the
  documents seated at it. \<open>H\<close> is empty between operations and holds the one document
  in transit between \<open>remove_doc\<close> and \<open>add_doc\<close>.
\<close>

definition total_over :: "corpus \<Rightarrow> (string \<Rightarrow> bool) \<Rightarrow> (string list \<Rightarrow> nat) \<Rightarrow> nat" where
  "total_over c sel val = (\<Sum>(d, ws) \<leftarrow> c. if sel d then val ws else 0)"

definition count_map :: "(string \<Rightarrow> nat) \<Rightarrow> (string \<rightharpoonup> int)" where
  "count_map f = (\<lambda>w. if f w = 0 then None else Some (int (f w)))"

definition seated_at :: "string set \<Rightarrow> state \<Rightarrow> nat \<Rightarrow> string \<Rightarrow> bool" where
  "seated_at H s t d = (d \<notin> H \<and> assignments s d = Some t)"

definition consistent :: "corpus \<Rightarrow> string set \<Rightarrow> state \<Rightarrow> bool" where
  "consistent c H s =
     ((\<forall>d t. seated_at H s t d \<longrightarrow> map_of c d \<noteq> None \<and> map_of (tables s) t \<noteq> None)
      \<and> (\<forall>t tb. map_of (tables s) t = Some tb \<longrightarrow>
             word_counts tb = count_map (\<lambda>w. total_over c (seated_at H s t) (\<lambda>ws. count_list ws w))
             \<and> num_docs tb = int (total_over c (seated_at H s t) (\<lambda>ws. 1))))"

section \<open>Objects\<close>

lemma has_own_property_plain:
  "obj ''hasOwnProperty'' = None \<Longrightarrow> has_own_property obj key = Inr (obj key \<noteq> None)"
  by (simp add: has_own_property_def)

lemma has_own_property_shadowed:
  "obj ''hasOwnProperty'' = Some v \<Longrightarrow> has_own_property obj key = Inl TypeError"
  by (simp add: has_own_property_def)

lemma store_plain: "key \<noteq> ''__proto__'' \<Longrightarrow> store obj key v = obj(key \<mapsto> v)"
  by (simp add: store_def)

lemma store_proto: "obj ''__proto__'' = None \<Longrightarrow> store obj ''__proto__'' v = obj"
  by (simp add: store_def)

section \<open>Table prior\<close>

text \<open>
  C6. For \<open>count \<ge> 0\<close>, \<open>total \<ge> 0\<close> and \<open>alpha > 0\<close>, \<open>prob_of_table\<close> returns
  \<open>count / (total + alpha)\<close> when \<open>count > 0\<close> and \<open>alpha / (total + alpha)\<close> when
  \<open>count = 0\<close>; \<open>log_prob_table\<close> returns the natural logarithm of the same ratio,
  a zero count taking the alpha branch.
\<close>

theorem table_prior_value:
  "0 \<le> cnt \<Longrightarrow> 0 \<le> tot \<Longrightarrow> 0 < al \<Longrightarrow>
     prob_of_table cnt tot al
       = (if 0 < cnt then real_of_int cnt / (real_of_int tot + al) else al / (real_of_int tot + al))
     \<and> log_prob_table cnt tot al
       = ln (if 0 < cnt then real_of_int cnt / (real_of_int tot + al) else al / (real_of_int tot + al))"
  by (auto simp: prob_of_table_def log_prob_table_def)

theorem table_prior_value_witness:
  "(0::int) \<le> 3 \<and> (0::int) \<le> 5 \<and> (0::real) < 2
   \<and> prob_of_table 3 5 2 = 3 / 7 \<and> log_prob_table 3 5 2 = ln (3 / 7)
   \<and> prob_of_table 0 5 2 = 2 / 7 \<and> log_prob_table 0 5 2 = ln (2 / 7)"
  using table_prior_value [of 3 5 2] table_prior_value [of 0 5 2] by simp

section \<open>Word likelihood\<close>

lemma lookup0_bump: "lookup0 (bump m w) v = (if v = w then lookup0 m w + 1 else lookup0 m v)"
  by (simp add: lookup0_def bump_def split: option.splits)

lemma loop_factor_Suc:
  "loop_factor wc wt be Wv j lc (w # ws) (Suc i) = loop_factor wc wt be Wv (Suc j) (bump lc w) ws i"
  by (simp add: loop_factor_def lookup0_bump)

lemma loop_factor_Suc_absent:
  "w \<noteq> ws ! i \<Longrightarrow>
   loop_factor wc wt be Wv j lc (w # ws) (Suc i) = loop_factor wc wt be Wv (Suc j) lc ws i"
  by (simp add: loop_factor_def)

lemma loop_step:
  assumes "wc ''hasOwnProperty'' = None" "lc ''hasOwnProperty'' = None"
  shows "prob_loop wc wt be Wv j lc p (w # ws)
           = prob_loop wc wt be Wv (Suc j) (if w = ''__proto__'' \<and> lc w = None then lc else bump lc w)
               (p * loop_factor wc wt be Wv j lc (w # ws) 0) ws"
    and "log_prob_loop wc wt be Wv j lc p (w # ws)
           = log_prob_loop wc wt be Wv (Suc j) (if w = ''__proto__'' \<and> lc w = None then lc else bump lc w)
               (p + ln (loop_factor wc wt be Wv j lc (w # ws) 0)) ws"
  using assms
  by (auto simp: has_own_property_def Let_def bump_def store_def loop_factor_def lookup0_def
      split: option.splits)

lemma butlast_tail:
  "k \<notin> set (butlast (w # ws)) \<Longrightarrow> k \<notin> set (butlast ws) \<and> (ws \<noteq> [] \<longrightarrow> w \<noteq> k)"
  by (cases ws) auto

lemma prob_loop_prod:
  assumes "lc ''__proto__'' = None" "count_list ws ''__proto__'' \<le> 1"
    "''hasOwnProperty'' \<notin> set (butlast ws)"
    "ws \<noteq> [] \<longrightarrow> wc ''hasOwnProperty'' = None \<and> lc ''hasOwnProperty'' = None"
  shows "prob_loop wc wt be Wv j lc p ws = Inr (p * (\<Prod>i<length ws. loop_factor wc wt be Wv j lc ws i))"
  using assms
proof (induction ws arbitrary: j lc p)
  case Nil
  then show ?case by simp
next
  case (Cons w ws)
  let ?lc = "if w = ''__proto__'' \<and> lc w = None then lc else bump lc w"
  from Cons.prems(4) have h: "wc ''hasOwnProperty'' = None" "lc ''hasOwnProperty'' = None"
    by simp_all
  from butlast_tail [OF Cons.prems(3)] have bl: "''hasOwnProperty'' \<notin> set (butlast ws)"
    and last: "ws \<noteq> [] \<longrightarrow> w \<noteq> ''hasOwnProperty''" by simp_all
  have lc1: "?lc ''__proto__'' = None"
    using Cons.prems(1) by (auto simp: bump_def split: option.splits)
  have lc2: "ws \<noteq> [] \<longrightarrow> wc ''hasOwnProperty'' = None \<and> ?lc ''hasOwnProperty'' = None"
    using h last by (auto simp: bump_def split: option.splits)
  have cnt: "count_list ws ''__proto__'' \<le> 1"
    using Cons.prems(2) by (simp split: if_splits)
  have fac: "loop_factor wc wt be Wv j lc (w # ws) (Suc i) = loop_factor wc wt be Wv (Suc j) ?lc ws i"
    if "i < length ws" for i
  proof (cases "w = ''__proto__''")
    case True
    with Cons.prems(2) have "count_list ws ''__proto__'' = 0" by simp
    then have "''__proto__'' \<notin> set ws" by (simp add: count_list_0_iff)
    with that True have "w \<noteq> ws ! i" by (metis nth_mem)
    with True Cons.prems(1) show ?thesis by (simp add: loop_factor_Suc_absent)
  next
    case False
    then show ?thesis by (simp add: loop_factor_Suc)
  qed
  have "prob_loop wc wt be Wv j lc p (w # ws)
          = prob_loop wc wt be Wv (Suc j) ?lc (p * loop_factor wc wt be Wv j lc (w # ws) 0) ws"
    by (rule loop_step [where wc = wc and lc = lc, OF h])
  also have "\<dots> = Inr (p * loop_factor wc wt be Wv j lc (w # ws) 0
                     * (\<Prod>i<length ws. loop_factor wc wt be Wv (Suc j) ?lc ws i))"
    by (rule Cons.IH [where lc = ?lc, OF lc1 cnt bl lc2])
  also have "(\<Prod>i<length ws. loop_factor wc wt be Wv (Suc j) ?lc ws i)
               = (\<Prod>i<length ws. loop_factor wc wt be Wv j lc (w # ws) (Suc i))"
    by (rule prod.cong) (simp_all add: fac)
  finally show ?case
    by (simp add: prod.lessThan_Suc_shift mult.assoc del: prod.lessThan_Suc)
qed

lemma log_prob_loop_sum:
  assumes "lc ''__proto__'' = None" "count_list ws ''__proto__'' \<le> 1"
    "''hasOwnProperty'' \<notin> set (butlast ws)"
    "ws \<noteq> [] \<longrightarrow> wc ''hasOwnProperty'' = None \<and> lc ''hasOwnProperty'' = None"
  shows "log_prob_loop wc wt be Wv j lc p ws
           = Inr (p + (\<Sum>i<length ws. ln (loop_factor wc wt be Wv j lc ws i)))"
  using assms
proof (induction ws arbitrary: j lc p)
  case Nil
  then show ?case by simp
next
  case (Cons w ws)
  let ?lc = "if w = ''__proto__'' \<and> lc w = None then lc else bump lc w"
  from Cons.prems(4) have h: "wc ''hasOwnProperty'' = None" "lc ''hasOwnProperty'' = None"
    by simp_all
  from butlast_tail [OF Cons.prems(3)] have bl: "''hasOwnProperty'' \<notin> set (butlast ws)"
    and last: "ws \<noteq> [] \<longrightarrow> w \<noteq> ''hasOwnProperty''" by simp_all
  have lc1: "?lc ''__proto__'' = None"
    using Cons.prems(1) by (auto simp: bump_def split: option.splits)
  have lc2: "ws \<noteq> [] \<longrightarrow> wc ''hasOwnProperty'' = None \<and> ?lc ''hasOwnProperty'' = None"
    using h last by (auto simp: bump_def split: option.splits)
  have cnt: "count_list ws ''__proto__'' \<le> 1"
    using Cons.prems(2) by (simp split: if_splits)
  have fac: "loop_factor wc wt be Wv j lc (w # ws) (Suc i) = loop_factor wc wt be Wv (Suc j) ?lc ws i"
    if "i < length ws" for i
  proof (cases "w = ''__proto__''")
    case True
    with Cons.prems(2) have "count_list ws ''__proto__'' = 0" by simp
    then have "''__proto__'' \<notin> set ws" by (simp add: count_list_0_iff)
    with that True have "w \<noteq> ws ! i" by (metis nth_mem)
    with True Cons.prems(1) show ?thesis by (simp add: loop_factor_Suc_absent)
  next
    case False
    then show ?thesis by (simp add: loop_factor_Suc)
  qed
  have "log_prob_loop wc wt be Wv j lc p (w # ws)
          = log_prob_loop wc wt be Wv (Suc j) ?lc (p + ln (loop_factor wc wt be Wv j lc (w # ws) 0)) ws"
    by (rule loop_step [where wc = wc and lc = lc, OF h])
  also have "\<dots> = Inr (p + ln (loop_factor wc wt be Wv j lc (w # ws) 0)
                     + (\<Sum>i<length ws. ln (loop_factor wc wt be Wv (Suc j) ?lc ws i)))"
    by (rule Cons.IH [where lc = ?lc, OF lc1 cnt bl lc2])
  also have "(\<Sum>i<length ws. ln (loop_factor wc wt be Wv (Suc j) ?lc ws i))
               = (\<Sum>i<length ws. ln (loop_factor wc wt be Wv j lc (w # ws) (Suc i)))"
    by (rule sum.cong) (simp_all add: fac)
  finally show ?case
    by (simp add: sum.lessThan_Suc_shift add.assoc del: sum.lessThan_Suc)
qed





section \<open>The example state\<close>

lemma example_init: "initialize_state example_corpus 1 (1/2) = Inr example_state"
  by (simp add: initialize_state_def example_corpus_def example_state_def add_doc_def empty_table_def
        has_own_property_def store_def fun_eq_iff)

lemma example_fields:
  "assignments example_state = [''d1'' \<mapsto> 0, ''d2'' \<mapsto> 1]"
  "tables example_state
     = [(0, \<lparr>num_docs = 1, num_words = 2, word_counts = [''a'' \<mapsto> 1, ''b'' \<mapsto> 1]\<rparr>),
        (1, \<lparr>num_docs = 1, num_words = 2, word_counts = [''a'' \<mapsto> 2]\<rparr>)]"
  "total_docs example_state = 2" "nextID example_state = 2" "W example_state = 2"
  "alpha example_state = 1" "beta example_state = 1/2"
  by (simp_all add: example_state_def)

lemma example_removed:
  "remove_doc ''d1'' (Words [''a'', ''b'']) example_state
     = Inr (example_state
              \<lparr>tables := [(1, \<lparr>num_docs = 1, num_words = 2, word_counts = [''a'' \<mapsto> 2]\<rparr>)]\<rparr>)"
  by (simp add: remove_doc_def example_fields)

section \<open>The store: \<open>add_doc\<close>\<close>

lemma keys_update_present:
  "map_of al k = Some v' \<Longrightarrow> map fst (AList.update k v al) = map fst al"
  by (induction al) (auto split: if_splits)

lemma add_doc_total_docs:
  "add_doc docID words t s = Inr s' \<Longrightarrow> total_docs s' = total_docs s + 1"
  by (auto simp: add_doc_def Let_def split: option.splits words_value.splits sum.splits)

lemma add_doc_alpha_beta:
  "alpha (outcome_state (add_doc docID words t s)) = alpha s"
  "beta (outcome_state (add_doc docID words t s)) = beta s"
  by (auto simp: add_doc_def outcome_state_def Let_def split: option.splits words_value.splits sum.splits)

lemma add_doc_Inr:
  assumes "add_doc docID words t s = Inr s'"
  shows "\<exists>ws wc. words = Words ws
           \<and> add_words ws (word_counts (case map_of (tables s) t of Some tb \<Rightarrow> tb | None \<Rightarrow> empty_table))
               = Inr wc
           \<and> assignments s' = store (assignments s) docID t
           \<and> map_of (tables s')
               = (map_of (tables s))
                   (t \<mapsto> (case map_of (tables s) t of Some tb \<Rightarrow> tb | None \<Rightarrow> empty_table)
                          \<lparr>word_counts := wc,
                           num_docs := num_docs (case map_of (tables s) t of Some tb \<Rightarrow> tb | None \<Rightarrow> empty_table) + 1,
                           num_words := num_words (case map_of (tables s) t of Some tb \<Rightarrow> tb | None \<Rightarrow> empty_table)
                                        + int (length ws)\<rparr>)"
  using assms
  by (auto simp: add_doc_def Let_def update_conv' split: option.splits words_value.splits sum.splits)

lemma add_doc_fresh_cluster:
  assumes "map_of (tables s) t = None" "add_words ws Map.empty = Inr wc"
  shows "\<exists>s'. add_doc docID (Words ws) t s = Inr s'
           \<and> map_of (tables s') t = Some \<lparr>num_docs = 1, num_words = int (length ws), word_counts = wc\<rparr>
           \<and> nextID s' = nextID s + 1"
  using assms by (simp add: add_doc_def update_conv' empty_table_def)

text \<open>
  C10. When the cluster \<open>tableID\<close> is already in \<open>tables\<close>, \<open>add_doc\<close> changes that
  cluster's statistics, the \<open>assignments\<close> entry of the document and \<open>total_docs\<close>, and
  nothing else: \<open>nextID\<close>, every other cluster, the list of cluster identifiers and the
  remaining fields of the state are as they were, in the state that the call leaves
  behind whether it returns or throws. When the loop over the words completes, the call
  returns, the cluster has the counts that the loop computed, one document and
  \<open>length words\<close> words more, and \<open>total_docs\<close> is one higher.
\<close>

theorem add_doc_frame:
  assumes "map_of (tables s) tableID = Some tb"
  shows "nextID (outcome_state (add_doc docID words tableID s)) = nextID s
       \<and> (\<forall>k. k \<noteq> tableID \<longrightarrow>
              map_of (tables (outcome_state (add_doc docID words tableID s))) k = map_of (tables s) k)
       \<and> map fst (tables (outcome_state (add_doc docID words tableID s))) = map fst (tables s)
       \<and> assignments (outcome_state (add_doc docID words tableID s))
            = store (assignments s) docID tableID
       \<and> W (outcome_state (add_doc docID words tableID s)) = W s
       \<and> alpha (outcome_state (add_doc docID words tableID s)) = alpha s
       \<and> beta (outcome_state (add_doc docID words tableID s)) = beta s
       \<and> vocab (outcome_state (add_doc docID words tableID s)) = vocab s
       \<and> (\<forall>ws wc. words = Words ws \<longrightarrow> add_words ws (word_counts tb) = Inr wc \<longrightarrow>
             add_doc docID words tableID s = Inr (outcome_state (add_doc docID words tableID s))
             \<and> map_of (tables (outcome_state (add_doc docID words tableID s))) tableID
                  = Some (tb\<lparr>word_counts := wc,
                             num_docs := num_docs tb + 1,
                             num_words := num_words tb + int (length ws)\<rparr>)
             \<and> total_docs (outcome_state (add_doc docID words tableID s)) = total_docs s + 1)"
  using assms
  by (auto simp: add_doc_def outcome_state_def Let_def update_conv' keys_update_present
      split: words_value.splits sum.splits)

theorem add_doc_frame_witness:
  "map_of (tables example_state) 1
     = Some \<lparr>num_docs = 1, num_words = 2, word_counts = [''a'' \<mapsto> 2]\<rparr>
   \<and> add_words [''b''] [''a'' \<mapsto> 2] = Inr [''a'' \<mapsto> 2, ''b'' \<mapsto> 1]
   \<and> nextID (outcome_state (add_doc ''d3'' (Words [''b'']) 1 example_state)) = 2
   \<and> map_of (tables (outcome_state (add_doc ''d3'' (Words [''b'']) 1 example_state))) 0
       = Some \<lparr>num_docs = 1, num_words = 2, word_counts = [''a'' \<mapsto> 1, ''b'' \<mapsto> 1]\<rparr>
   \<and> map_of (tables (outcome_state (add_doc ''d3'' (Words [''b'']) 1 example_state))) 1
       = Some \<lparr>num_docs = 2, num_words = 3, word_counts = [''a'' \<mapsto> 2, ''b'' \<mapsto> 1]\<rparr>
   \<and> total_docs (outcome_state (add_doc ''d3'' (Words [''b'']) 1 example_state)) = 3"
proof -
  have h: "map_of (tables example_state) 1
             = Some \<lparr>num_docs = 1, num_words = 2, word_counts = [''a'' \<mapsto> 2]\<rparr>"
    by (simp add: example_fields)
  have w: "add_words [''b''] [''a'' \<mapsto> 2] = Inr [''a'' \<mapsto> 2, ''b'' \<mapsto> 1]"
    by (simp add: has_own_property_def store_def)
  show ?thesis
    using add_doc_frame [OF h, of "''d3''" "Words [''b'']"] h w
    by (simp add: example_fields)
qed

section \<open>The store: \<open>remove_doc\<close>\<close>

lemma remove_doc_Inr:
  assumes "remove_doc docID words s = Inr s'"
  shows "\<exists>ws t tb wc.
           words = Words ws \<and> assignments s docID = Some t \<and> map_of (tables s) t = Some tb
           \<and> remove_words ws (word_counts tb) = Inr wc
           \<and> s' = (if num_docs tb - 1 = 0 then s\<lparr>tables := AList.delete t (tables s)\<rparr>
                     else s\<lparr>tables := AList.update t
                            (tb\<lparr>word_counts := wc, num_words := num_words tb - int (length ws),
                                num_docs := num_docs tb - 1\<rparr>) (tables s)\<rparr>)"
proof (cases words)
  case Undefined
  with assms show ?thesis by (simp add: remove_doc_def)
next
  case No_length
  with assms show ?thesis by (simp add: remove_doc_def split: option.splits)
next
  case ws: (Words ws)
  show ?thesis
  proof (cases "assignments s docID")
    case None
    with assms ws show ?thesis by (simp add: remove_doc_def)
  next
    case t: (Some t)
    show ?thesis
    proof (cases "map_of (tables s) t")
      case None
      with assms ws t show ?thesis by (simp add: remove_doc_def)
    next
      case tb: (Some tb)
      show ?thesis
      proof (cases "remove_words ws (word_counts tb)")
        case (Inl wc)
        with assms ws t tb show ?thesis by (simp add: remove_doc_def)
      next
        case (Inr wc)
        with assms ws t tb show ?thesis by (simp add: remove_doc_def Let_def)
      qed
    qed
  qed
qed

lemma remove_doc_total_docs:
  "total_docs (outcome_state (remove_doc docID words s)) = total_docs s"
  by (auto simp: remove_doc_def outcome_state_def Let_def
      split: option.splits sum.splits if_splits words_value.splits)

lemma remove_doc_last_document:
  assumes "remove_doc docID words s = Inr s'" "assignments s docID = Some t"
    "map_of (tables s) t = Some tb" "num_docs tb = 1"
  shows "map_of (tables s') t = None"
  using remove_doc_Inr [OF assms(1)] assms(2-4) by (auto simp: delete_conv')

text \<open>
  C2. The claim has \<open>remove_doc\<close> decrement the cluster's word counts, its
  \<open>num_words\<close> and \<open>num_docs\<close>, and the global \<open>total_docs\<close>. The source writes
  the cluster only. On the state that \<open>initialize_state\<close> returns for the example,
  \<open>total_docs\<close> is 2; removing \<open>d1\<close> deletes cluster \<open>0\<close> and leaves \<open>total_docs\<close> at
  2, where one document remains seated.
\<close>

theorem remove_doc_keeps_total_docs_example:
  "map_sum id total_docs (initialize_state example_corpus 1 (1/2)) = Inr 2
   \<and> map_sum id (\<lambda>s. (total_docs s, map fst (tables s)))
        (then_do (initialize_state example_corpus 1 (1/2)) (remove_doc ''d1'' (Words [''a'', ''b''])))
     = Inr (2, [1])"
  by (simp add: example_init then_do_def example_removed example_fields)

section \<open>The samplers return one of the candidates\<close>

lemma sample_walk_result:
  "sample_walk t key xs = r \<Longrightarrow> r = key \<and> xs = [] \<or> (\<exists>k \<in> fst ` set xs. r = Some k)"
proof (induction xs arbitrary: t key)
  case Nil
  then show ?case by simp
next
  case (Cons a xs)
  obtain k p where a: "a = (k, p)" by (cases a)
  show ?case
  proof (cases "num_less (num_sub t (Fin p)) (Fin 0)")
    case True
    with Cons.prems a show ?thesis by (auto simp: Let_def)
  next
    case False
    with Cons.prems a have "sample_walk (num_sub t (Fin p)) (Some k) xs = r" by (simp add: Let_def)
    from Cons.IH [OF this] a show ?thesis by auto
  qed
qed

lemma set_for_in [simp]: "set (for_in xs) = set xs"
  by (simp add: for_in_def)

lemma for_in_Nil_iff [simp]: "for_in xs = [] \<longleftrightarrow> xs = []"
  by (metis set_for_in set_empty)

lemma sample_result:
  "xs \<noteq> [] \<Longrightarrow> \<exists>k \<in> fst ` set xs. sample u xs = Some k"
  using sample_walk_result [of "num_mul (Fin u) (sample_sum (Fin 0) (for_in xs))" None "for_in xs" "sample u xs"]
  by (auto simp: sample_def sample_list_def)

lemma log_walk_result:
  "log_walk mx lnc random acc xs = Some k \<Longrightarrow> k \<in> snd ` set xs"
proof (induction xs arbitrary: acc)
  case Nil
  then show ?case by simp
next
  case (Cons a xs)
  obtain x k' where a: "a = (x, k')" by (cases a)
  let ?acc = "num_add acc (num_exp (num_sub (Fin x) (Fin mx)))"
  show ?case
  proof (cases "num_less random (num_sub (num_add (Fin mx) (num_log ?acc)) lnc)")
    case True
    with Cons.prems a show ?thesis by (auto simp: Let_def)
  next
    case False
    with Cons.prems a have "log_walk mx lnc random ?acc xs = Some k"
      by (simp add: Let_def)
    from Cons.IH [OF this] show ?thesis by simp
  qed
qed

lemma set_js_sort [simp]: "set (js_sort num2str xs) = set xs"
  by (simp add: js_sort_def)

lemma js_sort_Nil_iff [simp]: "js_sort num2str xs = [] \<longleftrightarrow> xs = []"
  by (metis set_js_sort set_empty)

lemma log_sample_result:
  assumes "xs \<noteq> []"
  shows "\<exists>k \<in> snd ` set xs. log_sample num2str u xs = Some k"
proof -
  let ?ys = "js_sort num2str xs"
  have ne: "?ys \<noteq> []" using assms by simp
  then obtain y ys where ys: "?ys = y # ys" by (cases ?ys) auto
  show ?thesis
  proof (cases "log_walk (log_sample_max ?ys) (log_norm_const ?ys) (num_log (Fin u)) (Fin 0) ?ys")
    case None
    have "last ?ys \<in> set ?ys" using ne by (rule last_in_set)
    then have "snd (last ?ys) \<in> snd ` set xs" by auto
    moreover have "log_sample num2str u xs = Some (snd (last ?ys))"
      using None ys by (simp add: log_sample_def Let_def)
    ultimately show ?thesis by blast
  next
    case (Some k)
    then have "k \<in> snd ` set xs" using log_walk_result [OF Some] by simp
    moreover have "log_sample num2str u xs = Some k"
      using Some ys by (simp add: log_sample_def Let_def)
    ultimately show ?thesis by blast
  qed
qed

section \<open>Numbers within the double range\<close>

lemma max_double_ge: "2 ^ 1023 \<le> max_double"
  by (simp add: max_double_def)

lemma max_double_ge_one: "1 \<le> max_double"
proof -
  have "(1::real) \<le> 2 ^ 1023" by (rule one_le_power) simp
  with max_double_ge show ?thesis by linarith
qed

lemma round_num_Fin: "\<bar>r\<bar> \<le> max_double \<Longrightarrow> round_num r = Fin r"
  by (auto simp: round_num_def)

section \<open>The samplers within the double range\<close>

text \<open>
  With non-negative weights whose sum is a double and a draw in \<open>[0, 1]\<close> no step of
  \<open>sample\<close> leaves the double range, and \<open>sample\<close> is the walk over the reals.
\<close>

lemma num_sub_Fin: "\<bar>a - b\<bar> \<le> max_double \<Longrightarrow> num_sub (Fin a) (Fin b) = Fin (a - b)"
  by (simp add: num_sub_def round_num_Fin)

lemma num_add_Fin: "\<bar>a + b\<bar> \<le> max_double \<Longrightarrow> num_add (Fin a) (Fin b) = Fin (a + b)"
  by (simp add: round_num_Fin)

lemma sample_sum_exact:
  assumes "\<forall>p \<in> snd ` set ps. 0 \<le> p" "0 \<le> a" "a + sum_list (map snd ps) \<le> max_double"
  shows "sample_sum (Fin a) ps = Fin (a + sum_list (map snd ps))"
  using assms
proof (induction ps arbitrary: a)
  case Nil
  then show ?case by simp
next
  case (Cons q ps)
  obtain k p where q: "q = (k, p)" by (cases q)
  have p: "0 \<le> p" using Cons.prems(1) q by simp
  have rest: "0 \<le> sum_list (map snd ps)"
    using Cons.prems(1) by (intro sum_list_nonneg) auto
  have "\<bar>a + p\<bar> \<le> max_double" using p rest Cons.prems(2,3) q by simp
  then have "num_add (Fin a) (Fin p) = Fin (a + p)" by (rule num_add_Fin)
  then have "sample_sum (Fin a) (q # ps) = sample_sum (Fin (a + p)) ps"
    using q by simp
  also have "\<dots> = Fin (a + p + sum_list (map snd ps))"
    using Cons.prems p q by (intro Cons.IH) (auto simp: add.assoc)
  finally show ?case using q by (simp add: add.assoc)
qed

lemma sample_walk_is_exact:
  assumes "\<forall>p \<in> snd ` set ps. 0 \<le> p" "t \<le> max_double" "- max_double \<le> t - sum_list (map snd ps)"
  shows "sample_walk (Fin t) key ps = sample_walk_exact t key ps"
  using assms
proof (induction ps arbitrary: t key)
  case Nil
  then show ?case by simp
next
  case (Cons q ps)
  obtain k p where q: "q = (k, p)" by (cases q)
  have p: "0 \<le> p" using Cons.prems(1) q by simp
  have rest: "0 \<le> sum_list (map snd ps)"
    using Cons.prems(1) by (intro sum_list_nonneg) auto
  have "\<bar>t - p\<bar> \<le> max_double" using p rest Cons.prems(2,3) q by simp
  then have sub: "num_sub (Fin t) (Fin p) = Fin (t - p)" by (rule num_sub_Fin)
  have ih: "sample_walk (Fin (t - p)) (Some k) ps = sample_walk_exact (t - p) (Some k) ps"
    using Cons.prems p q by (intro Cons.IH) auto
  show ?case using q sub ih by (simp add: Let_def)
qed

lemma sample_list_is_exact:
  assumes "\<forall>p \<in> snd ` set ps. 0 \<le> p" "sum_list (map snd ps) \<le> max_double" "0 \<le> u" "u \<le> 1"
  shows "sample_list u ps = sample_list_exact u ps"
proof -
  let ?S = "sum_list (map snd ps)"
  have S: "0 \<le> ?S" using assms(1) by (intro sum_list_nonneg) auto
  have sm: "sample_sum (Fin 0) ps = Fin ?S"
    using sample_sum_exact [OF assms(1), of 0] assms(2) by simp
  have uS: "0 \<le> u * ?S" "u * ?S \<le> ?S"
    using S assms(3,4) by (simp_all add: mult_left_le_one_le)
  then have "\<bar>u * ?S\<bar> \<le> max_double" using assms(2) by simp
  then have mul: "round_num (u * ?S) = Fin (u * ?S)" by (rule round_num_Fin)
  have "sample_walk (Fin (u * ?S)) None ps = sample_walk_exact (u * ?S) None ps"
    using uS assms(1,2) S by (intro sample_walk_is_exact) auto
  then show ?thesis by (simp add: sample_list_def sample_list_exact_def sm mul)
qed

lemma sum_list_insort_key:
  "sum_list (map f (insort_key g x xs)) = (f x :: real) + sum_list (map f xs)"
  by (induction xs) auto

lemma sum_list_sort_key: "sum_list (map f (sort_key g xs)) = (sum_list (map f xs) :: real)"
  by (induction xs) (auto simp: sum_list_insort_key)

lemma sample_is_exact:
  assumes "\<forall>p \<in> snd ` set ps. 0 \<le> p" "sum_list (map snd ps) \<le> max_double" "0 \<le> u" "u \<le> 1"
  shows "sample u ps = sample_list_exact u (for_in ps)"
proof -
  have "sum_list (map snd (for_in ps)) = sum_list (map snd ps)"
    unfolding for_in_def by (rule sum_list_sort_key)
  then show ?thesis
    using assms unfolding sample_def by (intro sample_list_is_exact) auto
qed

text \<open>
  The walk of \<open>log_sample\<close> over its sorted array is the walk of \<open>sample\<close> over the
  same candidates in the same order, with the weights \<open>exp x\<close>, as long as the sum of
  the exponentials is a double.
\<close>

lemma exp_sum_Nil [simp]: "exp_sum mx [] = 0"
  by (simp add: exp_sum_def)

lemma exp_sum_Cons [simp]: "exp_sum mx ((x, k) # ys) = exp (x - mx) + exp_sum mx ys"
  by (simp add: exp_sum_def)


lemma sum_list_exp_shift:
  "sum_list (map (\<lambda>(x, k). exp (x - m)) ps) = sum_list (map (\<lambda>(x, k). exp x) ps) / exp (m::real)"
  by (induction ps) (auto simp: exp_diff add_divide_distrib)

lemma sum_list_exp_pos: "ps \<noteq> [] \<Longrightarrow> 0 < sum_list (map (\<lambda>(x, k). exp (x::real)) ps)"
proof (induction ps)
  case Nil
  then show ?case by simp
next
  case (Cons p ps)
  obtain x k where p: "p = (x, k)" by (cases p)
  have "0 \<le> sum_list (map (\<lambda>(x, k). exp (x::real)) ps)"
    by (rule sum_list_nonneg) auto
  then show ?case using p by (simp add: add_pos_nonneg)
qed











section \<open>The two samplers compared\<close>











text \<open>
  C4. The claim has \<open>log_sample\<close> take the maximum of the log-weights as its
  stabilising constant. The source takes the first element of the array after
  \<open>sort()\<close>, which orders by the printed form: for the log-weights \<open>-2\<close> and \<open>-10\<close> the
  string \<open>-10,1\<close> sorts before \<open>-2,0\<close>, and the constant is \<open>-10\<close>, the minimum.
\<close>

theorem log_sample_max_not_maximum:
  "log_sample_max (js_sort integer_to_string [(- 2, 0), (- 10, 1)]) = - 10
   \<and> Max (fst ` set [(- 2 :: real, 0 :: nat), (- 10, 1)]) = - 2"
  by (simp add: log_sample_max_def js_sort_def integer_to_string_def show_int_def show_nat.simps)

section \<open>Overflow in the log-space sampler\<close>

text \<open>
  For the log-weights \<open>-700\<close>, \<open>11\<close> and \<open>3\<close> the sort leaves the order, the
  constant is \<open>-700\<close>, and \<open>Math.exp(711)\<close> is infinite: the normaliser is infinite,
  every comparison is with \<open>-Infinity\<close> or NaN and fails, and \<open>log_sample\<close> returns
  the last candidate for every draw. \<open>sample\<close> on the weights returns candidate 1 for
  the draw \<open>0.5\<close>.
\<close>

lemma exp_711_overflows: "max_double < exp (711::real)"
proof -
  let ?y = "711 / 8192 :: real"
  have "1 + ?y + ?y\<^sup>2 / 2 \<le> exp ?y" by (rule exp_lower_Taylor_quadratic) simp
  then have "(1 + ?y + ?y\<^sup>2 / 2) ^ 8 \<le> exp ?y ^ 8" by (rule power_mono) simp
  moreover have "(2::real) \<le> (1 + ?y + ?y\<^sup>2 / 2) ^ 8" by (simp add: power2_eq_square power_divide)
  ultimately have "2 \<le> exp ?y ^ 8" by linarith
  then have "(2::real) ^ 1024 \<le> (exp ?y ^ 8) ^ 1024" by (rule power_mono) simp
  also have "\<dots> = exp ?y ^ 8192" by (simp add: power_mult [symmetric])
  also have "\<dots> = exp (real 8192 * ?y)" by (rule exp_of_nat_mult [symmetric])
  also have "\<dots> = exp 711" by simp
  finally have "(2::real) ^ 1024 \<le> exp 711" .
  moreover have "max_double < 2 ^ 1024" by (simp add: max_double_def)
  ultimately show ?thesis by linarith
qed

lemma round_num_pos: "0 < r \<Longrightarrow> round_num r = PInf \<or> round_num r = Fin r"
  using max_double_ge_one by (auto simp: round_num_def)

lemma log_sample_overflow_example:
  "log_sample integer_to_string (1/2) [(- 700, 0), (11, 1), (3, 2)] = Some 2"
proof -
  have srt: "js_sort integer_to_string [(- 700, 0), (11, 1), (3, 2)] = [(- 700, 0), (11, 1), (3, 2)]"
    by (simp add: js_sort_def integer_to_string_def show_int_def show_nat.simps)
  have inf: "round_num (exp 711) = PInf"
    using exp_711_overflows by (simp add: round_num_def)
  have r1: "round_num 1 = Fin 1" using max_double_ge_one by (intro round_num_Fin) simp
  have "(711::real) \<le> 2 ^ 1023" by simp
  then have m: "711 \<le> max_double" using max_double_ge by linarith
  have r2: "round_num 0 = Fin 0" "round_num 711 = Fin 711" "round_num 703 = Fin 703"
      "round_num (- 700) = Fin (- 700)"
    using m by (simp_all add: round_num_def)
  have fin: "round_num (exp 703) = PInf \<or> round_num (exp 703) = Fin (exp 703)"
    by (rule round_num_pos) simp
  from fin show ?thesis
    unfolding log_sample_def Let_def srt
    by (auto simp: log_sample_max_def log_norm_const_def num_sub_def Let_def inf r1 r2)
qed

lemma sample_list_exact_three:
  assumes "0 < a" "a < 1" "1 < c" "c < b"
  shows "sample_list_exact (1/2) [(0, a), (1, b), (2, c)] = Some 1"
  using assms by (simp add: sample_list_exact_def)

lemma sample_no_overflow_example:
  "sample (1/2) [(0, exp (- 700)), (1, exp 11), (2, exp 3)] = Some 1"
proof -
  have a: "0 < exp (- 700 :: real)" "exp (- 700 :: real) < 1" by simp_all
  have c: "1 < exp (3::real)" "exp (3::real) < exp 11" by simp_all
  have "exp (real 11 * 1) = exp (1::real) ^ 11" by (rule exp_of_nat_mult)
  moreover have "exp (1::real) ^ 11 \<le> 3 ^ 11" using exp_le by (rule power_mono) simp
  ultimately have b: "exp (11::real) \<le> 177147" by simp
  have "(3 * 177147 :: real) \<le> 2 ^ 1023" by simp
  then have "exp (- 700) + (exp 11 + exp (3::real)) \<le> max_double"
    using a b c max_double_ge by linarith
  then have "sample (1/2) [(0, exp (- 700)), (1, exp 11), (2, exp 3)]
               = sample_list_exact (1/2) (for_in [(0, exp (- 700)), (1, exp 11), (2, exp 3)])"
    by (intro sample_is_exact) simp_all
  moreover have "for_in [(0, exp (- 700 :: real)), (1, exp 11), (2, exp 3)]
                  = [(0, exp (- 700)), (1, exp 11), (2, exp 3)]"
    by (simp add: for_in_def)
  moreover have "sample_list_exact (1/2) [(0, exp (- 700)), (1, exp 11), (2, exp 3)] = Some 1"
    using a c by (rule sample_list_exact_three)
  ultimately show ?thesis by simp
qed

section \<open>Reseating\<close>

lemma table_weights_fail:
  assumes "\<And>tb. weight tb = Inl e"
  shows "table_weights weight xs = (if xs = [] then Inr [] else Inl e)"
proof (cases xs)
  case Nil
  then show ?thesis by simp
next
  case (Cons p ps)
  obtain k tb where "p = (k, tb)" by (cases p)
  then show ?thesis using Cons assms by simp
qed

lemma table_weights_keys:
  "table_weights weight xs = Inr ws \<Longrightarrow> map fst ws = map fst xs"
  by (induction xs arbitrary: ws) (auto split: sum.splits)

text \<open>
  C9, as claimed: for every document identifier absent from the corpus,
  \<open>sample_table\<close> fails and leaves the state unchanged. It does not for an identifier
  that names a member of \<open>Object.prototype\<close>: \<open>toString\<close> is no key of the example
  corpus, \<open>corpus[docID]\<close> is the inherited function, whose length is 0, and the call
  runs as for a document without words. With the draw \<open>0.5\<close> on the example state it
  returns, having seated \<open>toString\<close> at cluster 1 and raised \<open>total_docs\<close> to 3.
\<close>

theorem reseat_inherited_name_completes:
  "map_of example_corpus ''toString'' = None
   \<and> initialize_state example_corpus 1 (1/2) = Inr example_state
   \<and> sample_table ''toString'' example_corpus (1/2) example_state
       = Inr (example_state
                \<lparr>assignments := [''d1'' \<mapsto> 0, ''d2'' \<mapsto> 1, ''toString'' \<mapsto> 1],
                 tables := [(0, \<lparr>num_docs = 1, num_words = 2, word_counts = [''a'' \<mapsto> 1, ''b'' \<mapsto> 1]\<rparr>),
                            (1, \<lparr>num_docs = 2, num_words = 2, word_counts = [''a'' \<mapsto> 2]\<rparr>)],
                 total_docs := 3\<rparr>)"
proof -
  have a: "map_of example_corpus ''toString'' = None" by (simp add: example_corpus_def)
  have w: "corpus_get example_corpus ''toString'' = Words []"
    by (simp add: corpus_get_def a object_prototype_def)
  have r: "round_num 0 = Fin 0" "round_num 1 = Fin 1" "round_num (1/3) = Fin (1/3)"
     "round_num (2/3) = Fin (2/3)" "round_num (1/2) = Fin (1/2)" "round_num (1/6) = Fin (1/6)"
     "round_num (- (1/6)) = Fin (- (1/6))"
    using max_double_ge_one by (simp_all add: round_num_def)
  have s: "sample (1/2) [(0, 1/3), (1, 1/3), (2, 1/3)] = Some 1"
    by (simp add: sample_def sample_list_def for_in_def num_sub_def r)
  have "sample_table ''toString'' example_corpus (1/2) example_state
       = add_doc ''toString'' (Words []) 1 example_state"
    using s by (simp add: sample_table_def w example_fields has_own_property_def for_in_def
          prob_of_words_given_table_def prob_of_table_def)
  also have "\<dots> = Inr (example_state
                \<lparr>assignments := [''d1'' \<mapsto> 0, ''d2'' \<mapsto> 1, ''toString'' \<mapsto> 1],
                 tables := [(0, \<lparr>num_docs = 1, num_words = 2, word_counts = [''a'' \<mapsto> 1, ''b'' \<mapsto> 1]\<rparr>),
                            (1, \<lparr>num_docs = 2, num_words = 2, word_counts = [''a'' \<mapsto> 2]\<rparr>)],
                 total_docs := 3\<rparr>)"
    by (simp add: add_doc_def example_state_def store_def)
  finally show ?thesis using a example_init by simp
qed

text \<open>
  C9, amended. For every state and every document identifier that is neither a key of
  the corpus nor the name of a member of \<open>Object.prototype\<close>, \<open>sample_table\<close> (in
  both modules) fails with a TypeError, and the state at the failure is the state it was
  called on: \<open>assignments\<close>, \<open>tables\<close>, \<open>total_docs\<close> and \<open>nextID\<close> are as before.
\<close>

theorem reseat_absent_document:
  assumes "map_of c docID = None" and "object_prototype docID = None"
  shows "sample_table docID c u s = Inl (TypeError, s)
       \<and> sample_table_log num2str docID c u s = Inl (TypeError, s)"
proof -
  have w: "corpus_get c docID = Undefined" using assms by (simp add: corpus_get_def)
  have p: "\<And>wc tot be Wv. prob_of_words_given_table Undefined wc tot be Wv = Inl TypeError"
    by (simp add: prob_of_words_given_table_def)
  have l: "\<And>wc tot be Wv. log_prob_words_given_table Undefined wc tot be Wv = Inl TypeError"
    by (simp add: log_prob_words_given_table_def)
  have r: "remove_doc docID Undefined s = Inl (TypeError, s)" by (simp add: remove_doc_def)
  have a: "sample_table docID c u s = Inl (TypeError, s)"
    unfolding sample_table_def w Let_def p
    by (simp add: has_own_property_def r table_weights_fail)
  have b: "sample_table_log num2str docID c u s = Inl (TypeError, s)"
    unfolding sample_table_log_def w Let_def l
    by (simp add: has_own_property_def r table_weights_fail)
  from a b show ?thesis by simp
qed

theorem reseat_absent_document_witness:
  "map_of example_corpus ''d9'' = None
   \<and> object_prototype ''d9'' = None
   \<and> sample_table ''d9'' example_corpus (1/2) example_state = Inl (TypeError, example_state)
   \<and> sample_table_log integer_to_string ''d9'' example_corpus (1/2) example_state
       = Inl (TypeError, example_state)"
proof -
  have h: "map_of example_corpus ''d9'' = None"
    by (simp add: example_corpus_def)
  have o: "object_prototype ''d9'' = None"
    by (simp add: object_prototype_def)
  show ?thesis
    using reseat_absent_document [OF h o] h o by simp
qed

section \<open>Reseating the example\<close>

lemma example_d1: "corpus_get example_corpus ''d1'' = Words [''a'', ''b'']"
  by (simp add: corpus_get_def example_corpus_def)

lemma example_likelihoods:
  "prob_of_words_given_table (Words [''a'', ''b'']) [''a'' \<mapsto> 2] 2 (1/2) 2 = Inr (5/48)"
  "prob_of_words_given_table (Words [''a'', ''b'']) Map.empty 0 (1/2) 2 = Inr (1/8)"
  "log_prob_words_given_table (Words [''a'', ''b'']) [''a'' \<mapsto> 2] 2 (1/2) 2 = Inr (ln (5/6) + ln (1/8))"
  "log_prob_words_given_table (Words [''a'', ''b'']) Map.empty 0 (1/2) 2 = Inr (ln (1/2) + ln (1/4))"
  by (simp_all add: prob_of_words_given_table_def log_prob_words_given_table_def
        has_own_property_def store_def)

lemma example_add_back:
  "k = 1 \<or> k = 2 \<Longrightarrow>
   map_sum fst conservation_view
     (add_doc ''d1'' (Words [''a'', ''b'']) k
        (example_state\<lparr>tables := [(1, \<lparr>num_docs = 1, num_words = 2, word_counts = [''a'' \<mapsto> 2]\<rparr>)]\<rparr>))
   = Inr (3, 2, 2)"
  by (auto simp: conservation_view_def add_doc_def empty_table_def example_fields
        has_own_property_def store_def)

text \<open>
  C1. The claim has \<open>total_docs\<close> equal to the number of entries of \<open>assignments\<close>
  and to the sum of \<open>num_docs\<close> over the clusters in every reachable state, and equal to 2
  after \<open>initialize\<close> and one reseat of \<open>d1\<close> in the example. The three numbers
  (\<open>conservation_view\<close>) are 2, 2, 2 in the state that \<open>initialize_state\<close> returns,
  and 3, 2, 2 after one reseat of \<open>d1\<close>, in both modules, whatever the draw and
  whichever candidate is chosen.
\<close>

theorem reseat_example_total_docs:
  "initialize_state example_corpus 1 (1/2) = Inr example_state
   \<and> conservation_view example_state = (2, 2, 2)
   \<and> map_sum fst conservation_view
        (sample_table_log num2str ''d1'' example_corpus u example_state)
      = Inr (3, 2, 2)
   \<and> map_sum fst conservation_view
        (sample_table ''d1'' example_corpus u example_state)
      = Inr (3, 2, 2)"
proof -
  let ?s1 = "example_state\<lparr>tables := [(1, \<lparr>num_docs = 1, num_words = 2, word_counts = [''a'' \<mapsto> 2]\<rparr>)]\<rparr>"
  have a: "conservation_view example_state = (2, 2, 2)"
    by (simp add: conservation_view_def example_fields)
  have b: "map_sum fst conservation_view (sample_table_log num2str ''d1'' example_corpus u example_state)
             = Inr (3, 2, 2)"
  proof -
    let ?ps = "[(log_prob_table 1 2 1 + (ln (5/6) + ln (1/8)), 1::nat),
                (log_prob_table 0 2 1 + (ln (1/2) + ln (1/4)), 2)]"
    obtain k where k: "k = 1 \<or> k = 2" "log_sample num2str u ?ps = Some k"
      using log_sample_result [of ?ps num2str u] by auto
    have "sample_table_log num2str ''d1'' example_corpus u example_state
            = add_doc ''d1'' (Words [''a'', ''b'']) k ?s1"
      using k(2)
      by (simp add: sample_table_log_def example_d1 example_removed for_in_def
            example_fields example_likelihoods has_own_property_def)
    then show ?thesis using example_add_back [OF k(1)] by simp
  qed
  have c: "map_sum fst conservation_view (sample_table ''d1'' example_corpus u example_state)
             = Inr (3, 2, 2)"
  proof -
    let ?ps = "AList.update 2 (prob_of_table 0 2 1 * (1/8)) [(1::nat, prob_of_table 1 2 1 * (5/48))]"
    obtain k where k: "k = 1 \<or> k = 2" "sample u ?ps = Some k"
      using sample_result [of ?ps u] by auto
    have "sample_table ''d1'' example_corpus u example_state
            = add_doc ''d1'' (Words [''a'', ''b'']) k ?s1"
      using k(2)
      by (simp add: sample_table_def example_d1 example_removed for_in_def
            example_fields example_likelihoods has_own_property_def)
    then show ?thesis using example_add_back [OF k(1)] by simp
  qed
  from example_init a b c show ?thesis by simp
qed

section \<open>Initialisation checks nothing\<close>

lemma count_vocab_parameters:
  "count_vocab ws (s\<lparr>alpha := al, beta := be\<rparr>)
     = map_sum id (\<lambda>s. s\<lparr>alpha := al, beta := be\<rparr>) (count_vocab ws s)"
proof (induction ws arbitrary: s)
  case Nil
  then show ?case by simp
next
  case (Cons a ws)
  let ?f = "\<lambda>s. s\<lparr>alpha := al, beta := be\<rparr>"
  show ?case
  proof (cases "has_own_property (vocab s) a")
    case (Inl e)
    then show ?thesis by simp
  next
    case (Inr b)
    show ?thesis
    proof (cases "vocab s a")
      case None
      let ?s' = "s\<lparr>W := W s + 1, vocab := store (vocab s) a 1\<rparr>"
      have eq: "(?f s)\<lparr>W := W s + 1, vocab := store (vocab s) a 1\<rparr> = ?f ?s'"
        by (cases s) simp
      have "count_vocab (a # ws) (?f s)
              = count_vocab ws ((?f s)\<lparr>W := W s + 1, vocab := store (vocab s) a 1\<rparr>)"
        using Inr None by simp
      also have "\<dots> = count_vocab ws (?f ?s')" by (simp only: eq)
      also have "\<dots> = map_sum id ?f (count_vocab ws ?s')" by (rule Cons.IH)
      also have "\<dots> = map_sum id ?f (count_vocab (a # ws) s)" using Inr None by simp
      finally show ?thesis .
    next
      case (Some n)
      let ?s' = "s\<lparr>vocab := (vocab s)(a \<mapsto> n + 1)\<rparr>"
      have eq: "(?f s)\<lparr>vocab := (vocab s)(a \<mapsto> n + 1)\<rparr> = ?f ?s'"
        by (cases s) simp
      have "count_vocab (a # ws) (?f s)
              = count_vocab ws ((?f s)\<lparr>vocab := (vocab s)(a \<mapsto> n + 1)\<rparr>)"
        using Inr Some by simp
      also have "\<dots> = count_vocab ws (?f ?s')" by (simp only: eq)
      also have "\<dots> = map_sum id ?f (count_vocab ws ?s')" by (rule Cons.IH)
      also have "\<dots> = map_sum id ?f (count_vocab (a # ws) s)" using Inr Some by simp
      finally show ?thesis .
    qed
  qed
qed

lemma add_doc_parameters:
  "add_doc docID words t (s\<lparr>alpha := al, beta := be\<rparr>)
     = map_sum (\<lambda>(e, s). (e, s\<lparr>alpha := al, beta := be\<rparr>)) (\<lambda>s. s\<lparr>alpha := al, beta := be\<rparr>)
         (add_doc docID words t s)"
  by (auto simp: add_doc_def Let_def split: option.splits words_value.splits sum.splits)

lemma init_loop_parameters:
  "init_loop c (s\<lparr>alpha := al, beta := be\<rparr>)
     = map_sum id (\<lambda>s. s\<lparr>alpha := al, beta := be\<rparr>) (init_loop c s)"
proof (induction c s rule: init_loop.induct)
  case (1 s)
  then show ?case by simp
next
  case (2 docID words rest s)
  show ?case
  proof (cases "count_vocab words s")
    case (Inl e)
    then show ?thesis by (simp add: count_vocab_parameters)
  next
    case s': (Inr s')
    show ?thesis
    proof (cases "add_doc docID (Words words) (nextID s') s'")
      case (Inl es)
      then show ?thesis using s' by (cases es) (simp add: count_vocab_parameters add_doc_parameters)
    next
      case (Inr s'')
      then show ?thesis
        using s' "2.IH" [OF s' Inr] by (simp add: count_vocab_parameters add_doc_parameters)
    qed
  qed
qed

lemma count_vocab_alpha_beta:
  "count_vocab ws s = Inr s' \<Longrightarrow> alpha s' = alpha s \<and> beta s' = beta s"
  by (induction ws arbitrary: s) (auto split: sum.splits option.splits)

lemma init_loop_alpha_beta:
  "init_loop c s = Inr s' \<Longrightarrow> alpha s' = alpha s \<and> beta s' = beta s"
proof (induction c s rule: init_loop.induct)
  case (1 s)
  then show ?case by simp
next
  case (2 docID words rest s)
  from "2.prems" obtain s1 s2 where
    s1: "count_vocab words s = Inr s1" and
    s2: "add_doc docID (Words words) (nextID s1) s1 = Inr s2" and
    r: "init_loop rest s2 = Inr s'"
    by (auto split: sum.splits prod.splits)
  have "alpha s2 = alpha s1 \<and> beta s2 = beta s1"
    using add_doc_alpha_beta [of docID "Words words" "nextID s1" s1] s2
    by (simp add: outcome_state_def)
  then show ?case
    using count_vocab_alpha_beta [OF s1] "2.IH" [OF s1 s2 r] by simp
qed

text \<open>
  C8, as claimed: \<open>initialize_state\<close> rejects \<open>alpha \<le> 0\<close> and \<open>beta \<le> 0\<close>. It does not:
  with \<open>alpha = 0\<close> and \<open>beta = -1\<close> it seats both documents of the example and returns
  the state of the example with these two values in it.
\<close>

theorem initialize_accepts_nonpositive_parameters:
  "initialize_state example_corpus 0 (- 1) = Inr (example_state\<lparr>alpha := 0, beta := - 1\<rparr>)"
  by (simp add: initialize_state_def example_corpus_def example_state_def add_doc_def empty_table_def
        has_own_property_def store_def fun_eq_iff)

text \<open>
  C8, amended. \<open>initialize_state\<close> does not look at the hyperparameters: whether it
  returns a state or throws is the same for every \<open>alpha\<close> and \<open>beta\<close>, positive or not,
  the states returned for two pairs of values differ in these two fields only, and a
  returned state holds \<open>alpha\<close> and \<open>beta\<close> as they were given.
\<close>

theorem initialize_stores_parameters:
  "initialize_state c al' be'
     = map_sum id (\<lambda>s. s\<lparr>alpha := al', beta := be'\<rparr>) (initialize_state c al be)
   \<and> (\<forall>s. initialize_state c al be = Inr s \<longrightarrow> alpha s = al \<and> beta s = be)"
proof -
  let ?s0 = "\<lparr>assignments = Map.empty, tables = [], total_docs = 0, nextID = 0,
              W = 0, alpha = al, beta = be, vocab = Map.empty\<rparr>"
  have "init_loop c (?s0\<lparr>alpha := al', beta := be'\<rparr>)
          = map_sum id (\<lambda>s. s\<lparr>alpha := al', beta := be'\<rparr>) (init_loop c ?s0)"
    by (rule init_loop_parameters)
  then have a: "initialize_state c al' be'
     = map_sum id (\<lambda>s. s\<lparr>alpha := al', beta := be'\<rparr>) (initialize_state c al be)"
    by (simp add: initialize_state_def)
  have b: "\<forall>s. initialize_state c al be = Inr s \<longrightarrow> alpha s = al \<and> beta s = be"
    using init_loop_alpha_beta [of c ?s0] by (auto simp: initialize_state_def)
  from a b show ?thesis by simp
qed

theorem initialize_stores_parameters_witness:
  "initialize_state example_corpus 1 (1/2) = Inr example_state
   \<and> alpha example_state = 1 \<and> beta example_state = 1/2
   \<and> initialize_state example_corpus (- 3) 0 = Inr (example_state\<lparr>alpha := - 3, beta := 0\<rparr>)"
  using initialize_stores_parameters [of example_corpus "- 3" 0 1 "1/2"] example_init
  by simp

section \<open>No empty clusters\<close>

lemma set_update_subset: "set (AList.update k v al) \<subseteq> insert (k, v) (set al)"
  by (induction al) auto

lemma set_delete_subset: "set (AList.delete k al) \<subseteq> set al"
  by (induction al) auto

lemma remove_doc_no_empty:
  assumes "no_empty_cluster s" "remove_doc docID words s = Inr s'"
  shows "no_empty_cluster s'"
proof -
  from remove_doc_Inr [OF assms(2)] obtain ws t tb wc where
    "words = Words ws" and
    t: "map_of (tables s) t = Some tb" and
    s': "s' = (if num_docs tb - 1 = 0 then s\<lparr>tables := AList.delete t (tables s)\<rparr>
               else s\<lparr>tables := AList.update t
                      (tb\<lparr>word_counts := wc, num_words := num_words tb - int (length ws),
                          num_docs := num_docs tb - 1\<rparr>) (tables s)\<rparr>)"
    by blast
  from t have "(t, tb) \<in> set (tables s)" by (rule map_of_SomeD)
  with assms(1) have pos: "0 < num_docs tb" by (auto simp: no_empty_cluster_def)
  show ?thesis
  proof (cases "num_docs tb - 1 = 0")
    case True
    then show ?thesis
      using s' assms(1) set_delete_subset [of t "tables s"]
      by (auto simp: no_empty_cluster_def)
  next
    case False
    with pos have "0 < num_docs tb - 1" by simp
    then show ?thesis
      using s' False assms(1)
        set_update_subset [of t _ "tables s"]
      by (fastforce simp: no_empty_cluster_def)
  qed
qed

lemma add_doc_tables:
  assumes "add_doc docID words t s = Inr s'"
  shows "\<exists>tb'. 0 < num_docs tb' - num_docs (case map_of (tables s) t of Some tb \<Rightarrow> tb | None \<Rightarrow> empty_table)
           \<and> set (tables s') \<subseteq> insert (t, tb') (set (tables s))"
proof (cases "map_of (tables s) t")
  case None
  from assms None obtain tb' where
    "tables s' = AList.update t tb' (AList.update t empty_table (tables s))" "num_docs tb' = 1"
    by (auto simp: add_doc_def Let_def update_conv' empty_table_def
        split: words_value.splits sum.splits)
  moreover have "set (AList.update t tb' (AList.update t empty_table (tables s)))
                   \<subseteq> insert (t, tb') (set (tables s))"
    by (simp add: update_last) (rule set_update_subset)
  ultimately have "0 < num_docs tb' - num_docs empty_table
      \<and> set (tables s') \<subseteq> insert (t, tb') (set (tables s))"
    by (simp add: empty_table_def)
  then show ?thesis using None by auto
next
  case (Some tb)
  from assms Some obtain tb' where
    "tables s' = AList.update t tb' (tables s)" "num_docs tb' = num_docs tb + 1"
    by (auto simp: add_doc_def Let_def split: words_value.splits sum.splits)
  then have "0 < num_docs tb' - num_docs tb
      \<and> set (tables s') \<subseteq> insert (t, tb') (set (tables s))"
    using set_update_subset [of t tb' "tables s"] by simp
  then show ?thesis using Some by auto
qed

lemma add_doc_no_empty:
  assumes "no_empty_cluster s" "add_doc docID words t s = Inr s'"
  shows "no_empty_cluster s'"
proof -
  let ?tb = "case map_of (tables s) t of Some tb \<Rightarrow> tb | None \<Rightarrow> empty_table"
  from add_doc_tables [OF assms(2)] obtain tb' where
    n: "0 < num_docs tb' - num_docs ?tb" and
    sub: "set (tables s') \<subseteq> insert (t, tb') (set (tables s))"
    by blast
  have nn: "0 \<le> num_docs ?tb"
  proof (cases "map_of (tables s) t")
    case None
    then show ?thesis by (simp add: empty_table_def)
  next
    case (Some tb)
    then have "(t, tb) \<in> set (tables s)" by (rule map_of_SomeD)
    with assms(1) have "0 < num_docs tb" by (auto simp: no_empty_cluster_def)
    then show ?thesis using Some by simp
  qed
  from n nn have "0 < num_docs tb'" by linarith
  then show ?thesis
    using assms(1) sub by (fastforce simp: no_empty_cluster_def)
qed

lemma count_vocab_tables: "count_vocab ws s = Inr s' \<Longrightarrow> tables s' = tables s"
  by (induction ws arbitrary: s) (auto split: sum.splits option.splits)

lemma init_loop_no_empty:
  "no_empty_cluster s \<Longrightarrow> init_loop c s = Inr s' \<Longrightarrow> no_empty_cluster s'"
proof (induction c s rule: init_loop.induct)
  case (1 s)
  then show ?case by simp
next
  case (2 docID words rest s)
  from "2.prems"(2) obtain s1 s2 where
    s1: "count_vocab words s = Inr s1" and
    s2: "add_doc docID (Words words) (nextID s1) s1 = Inr s2" and
    r: "init_loop rest s2 = Inr s'"
    by (auto split: sum.splits prod.splits)
  have "no_empty_cluster s1"
    using "2.prems"(1) count_vocab_tables [OF s1] by (simp add: no_empty_cluster_def)
  then have "no_empty_cluster s2" using s2 by (rule add_doc_no_empty)
  then show ?case using r by (rule "2.IH" [OF s1 s2])
qed

lemma initialize_state_no_empty:
  "initialize_state c al be = Inr s \<Longrightarrow> no_empty_cluster s"
proof -
  assume "initialize_state c al be = Inr s"
  then have "init_loop c \<lparr>assignments = Map.empty, tables = [], total_docs = 0, nextID = 0,
                  W = 0, alpha = al, beta = be, vocab = Map.empty\<rparr> = Inr s"
    by (simp add: initialize_state_def)
  moreover have "no_empty_cluster \<lparr>assignments = Map.empty, tables = [], total_docs = 0, nextID = 0,
                  W = 0, alpha = al, beta = be, vocab = Map.empty\<rparr>"
    by (simp add: no_empty_cluster_def)
  ultimately show ?thesis by (rule init_loop_no_empty [rotated])
qed

lemma sample_table_Inr:
  assumes "sample_table docID c u s = Inr s'"
  shows "\<exists>s1 t. (s1 = s \<and> assignments s docID = None
                   \<or> remove_doc docID (corpus_get c docID) s = Inr s1)
               \<and> add_doc docID (corpus_get c docID) t s1 = Inr s'"
  using assms
  by (auto simp: sample_table_def Let_def has_own_property_def
      split: if_splits sum.splits option.splits)

lemma sample_table_log_Inr:
  assumes "sample_table_log num2str docID c u s = Inr s'"
  shows "\<exists>s1 t. (s1 = s \<and> assignments s docID = None
                   \<or> remove_doc docID (corpus_get c docID) s = Inr s1)
               \<and> add_doc docID (corpus_get c docID) t s1 = Inr s'"
  using assms
  by (auto simp: sample_table_log_def Let_def has_own_property_def
      split: if_splits sum.splits option.splits)

lemma sample_table_no_empty:
  assumes "no_empty_cluster s" "sample_table docID c u s = Inr s'"
  shows "no_empty_cluster s'"
proof -
  from sample_table_Inr [OF assms(2)] obtain s1 t where
    s1: "s1 = s \<and> assignments s docID = None \<or> remove_doc docID (corpus_get c docID) s = Inr s1"
    and s': "add_doc docID (corpus_get c docID) t s1 = Inr s'"
    by blast
  from s1 assms(1) have "no_empty_cluster s1" by (auto dest: remove_doc_no_empty)
  then show ?thesis using s' by (rule add_doc_no_empty)
qed

lemma sample_table_log_no_empty:
  assumes "no_empty_cluster s" "sample_table_log num2str docID c u s = Inr s'"
  shows "no_empty_cluster s'"
proof -
  from sample_table_log_Inr [OF assms(2)] obtain s1 t where
    s1: "s1 = s \<and> assignments s docID = None \<or> remove_doc docID (corpus_get c docID) s = Inr s1"
    and s': "add_doc docID (corpus_get c docID) t s1 = Inr s'"
    by blast
  from s1 assms(1) have "no_empty_cluster s1" by (auto dest: remove_doc_no_empty)
  then show ?thesis using s' by (rule add_doc_no_empty)
qed

lemma example_reseat_d1:
  "sample_table ''d1'' example_corpus (1/2) example_state
     = Inr (example_state
              \<lparr>assignments := [''d1'' \<mapsto> 2, ''d2'' \<mapsto> 1],
               tables := [(1, \<lparr>num_docs = 1, num_words = 2, word_counts = [''a'' \<mapsto> 2]\<rparr>),
                          (2, \<lparr>num_docs = 1, num_words = 2, word_counts = [''a'' \<mapsto> 1, ''b'' \<mapsto> 1]\<rparr>)],
               total_docs := 3, nextID := 3\<rparr>)"
proof -
  let ?s1 = "example_state\<lparr>tables := [(1, \<lparr>num_docs = 1, num_words = 2, word_counts = [''a'' \<mapsto> 2]\<rparr>)]\<rparr>"
  have r: "round_num 0 = Fin 0" "round_num (5/144) = Fin (5/144)" "round_num (1/24) = Fin (1/24)"
     "round_num (11/144) = Fin (11/144)" "round_num (11/288) = Fin (11/288)"
     "round_num (1/288) = Fin (1/288)" "round_num (- (11/288)) = Fin (- (11/288))"
    using max_double_ge_one by (simp_all add: round_num_def)
  have s: "sample (1/2) [(1, 5/144), (2, 1/24)] = Some 2"
    by (simp add: sample_def sample_list_def for_in_def num_sub_def r)
  have "sample_table ''d1'' example_corpus (1/2) example_state
          = add_doc ''d1'' (Words [''a'', ''b'']) 2 ?s1"
    using s by (simp add: sample_table_def example_d1 example_removed for_in_def
          example_fields example_likelihoods has_own_property_def prob_of_table_def)
  also have "\<dots> = Inr (example_state
              \<lparr>assignments := [''d1'' \<mapsto> 2, ''d2'' \<mapsto> 1],
               tables := [(1, \<lparr>num_docs = 1, num_words = 2, word_counts = [''a'' \<mapsto> 2]\<rparr>),
                          (2, \<lparr>num_docs = 1, num_words = 2, word_counts = [''a'' \<mapsto> 1, ''b'' \<mapsto> 1]\<rparr>)],
               total_docs := 3, nextID := 3\<rparr>)"
    by (simp add: add_doc_def example_state_def store_def has_own_property_def empty_table_def fun_eq_iff)
  finally show ?thesis .
qed

text \<open>
  C7. In every state reachable from \<open>initialize_state\<close> by completed
  \<open>sample_table\<close> calls, no cluster in \<open>tables\<close> has \<open>num_docs = 0\<close>: every cluster
  holds at least one document. (\<open>remove_doc\<close> deletes the cluster whose last document
  leaves, and \<open>add_doc\<close> puts the document into the cluster it creates.)
\<close>

theorem reachable_no_empty_cluster:
  assumes "reachable c al be s"
  shows "\<forall>(k, t) \<in> set (tables s). num_docs t \<noteq> 0 \<and> 0 < num_docs t"
proof -
  from assms have "no_empty_cluster s"
  proof (induction rule: reachable.induct)
    case (init s)
    then show ?case by (rule initialize_state_no_empty)
  next
    case (reseat s docID u s')
    then show ?case by (auto intro: sample_table_no_empty)
  next
    case (reseat_log s num2str docID u s')
    then show ?case by (auto intro: sample_table_log_no_empty)
  qed
  then show ?thesis by (auto simp: no_empty_cluster_def)
qed

theorem reachable_no_empty_cluster_witness:
  "\<exists>s s'. initialize_state example_corpus 1 (1/2) = Inr s
        \<and> sample_table ''d1'' example_corpus (1/2) s = Inr s'
        \<and> reachable example_corpus 1 (1/2) s'
        \<and> map fst (tables s') = [1, 2]
        \<and> (\<forall>(k, t) \<in> set (tables s'). num_docs t \<noteq> 0 \<and> 0 < num_docs t)"
proof -
  let ?s' = "example_state
              \<lparr>assignments := [''d1'' \<mapsto> 2, ''d2'' \<mapsto> 1],
               tables := [(1, \<lparr>num_docs = 1, num_words = 2, word_counts = [''a'' \<mapsto> 2]\<rparr>),
                          (2, \<lparr>num_docs = 1, num_words = 2, word_counts = [''a'' \<mapsto> 1, ''b'' \<mapsto> 1]\<rparr>)],
               total_docs := 3, nextID := 3\<rparr>"
  have r: "reachable example_corpus 1 (1/2) ?s'"
    by (rule reachable.reseat [OF reachable.init [OF example_init] example_reseat_d1])
  show ?thesis
  proof (intro exI conjI)
    show "initialize_state example_corpus 1 (1/2) = Inr example_state"
      by (rule example_init)
    show "sample_table ''d1'' example_corpus (1/2) example_state = Inr ?s'"
      by (rule example_reseat_d1)
    show "reachable example_corpus 1 (1/2) ?s'"
      by (rule r)
    show "map fst (tables ?s') = [1, 2]"
      by simp
    show "\<forall>(k, t) \<in> set (tables ?s'). num_docs t \<noteq> 0 \<and> 0 < num_docs t"
      by (rule reachable_no_empty_cluster [OF r])
  qed
qed

section \<open>Reseating a document of a plain corpus always completes\<close>

lemma total_over_Nil [simp]: "total_over [] sel val = 0"
  by (simp add: total_over_def)

lemma total_over_Cons [simp]:
  "total_over ((d, ws) # c) sel val = (if sel d then val ws else 0) + total_over c sel val"
  by (simp add: total_over_def)

lemma total_over_cong:
  "(\<And>d. d \<in> fst ` set c \<Longrightarrow> sel d = sel' d) \<Longrightarrow> total_over c sel val = total_over c sel' val"
  by (induction c) (auto simp: total_over_def)

lemma total_over_none: "(\<And>d. d \<in> fst ` set c \<Longrightarrow> \<not> sel d) \<Longrightarrow> total_over c sel val = 0"
  by (induction c) (auto simp: total_over_def)

lemma total_over_zero: "\<forall>ws \<in> snd ` set c. val ws = 0 \<Longrightarrow> total_over c sel val = 0"
  by (induction c) auto

lemma total_over_member:
  "(d, ws) \<in> set c \<Longrightarrow> sel d \<Longrightarrow> val ws \<le> total_over c sel val"
  by (induction c) (auto simp: total_over_def)

lemma total_over_split:
  assumes "distinct (map fst c)" "map_of c d = Some ws" "sel d"
  shows "total_over c sel val = val ws + total_over c (\<lambda>d'. sel d' \<and> d' \<noteq> d) val"
  using assms
proof (induction c)
  case Nil
  then show ?case by simp
next
  case (Cons p c)
  obtain d' ws' where p: "p = (d', ws')" by (cases p)
  show ?case
  proof (cases "d' = d")
    case True
    with Cons.prems p have ws: "ws' = ws" and notin: "d \<notin> fst ` set c" by auto
    have "total_over c sel val = total_over c (\<lambda>d'. sel d' \<and> d' \<noteq> d) val"
      using notin by (intro total_over_cong) auto
    with True p ws Cons.prems(3) show ?thesis by simp
  next
    case False
    with Cons.prems p have "map_of c d = Some ws" "distinct (map fst c)" by auto
    from Cons.IH [OF this(2) this(1) Cons.prems(3)] False p show ?thesis by simp
  qed
qed

lemma plain_corpus_distinct: "plain_corpus c \<Longrightarrow> distinct (map fst c)"
  by (simp add: plain_corpus_def)

lemma plain_corpus_doc:
  "plain_corpus c \<Longrightarrow> map_of c d = Some ws \<Longrightarrow> plain_name d \<and> (\<forall>w \<in> set ws. plain_name w)"
  by (auto simp: plain_corpus_def dest!: map_of_SomeD)

lemma plain_corpus_no_word:
  assumes "plain_corpus c" "\<not> plain_name w"
  shows "total_over c sel (\<lambda>ws. count_list ws w) = 0"
proof (rule total_over_zero, rule ballI)
  fix ws assume "ws \<in> snd ` set c"
  then obtain d where "(d, ws) \<in> set c" by auto
  with assms have "w \<notin> set ws" by (auto simp: plain_corpus_def)
  then show "count_list ws w = 0" by simp
qed

lemma remove_words_count_map:
  "remove_words ws (count_map (\<lambda>w. count_list ws w + g w)) = Inr (count_map g)"
proof (induction ws)
  case Nil
  then show ?case by simp
next
  case (Cons v ws)
  let ?wc = "count_map (\<lambda>w. count_list (v # ws) w + g w)"
  let ?c = "int (count_list ws v + g v) + 1"
  have a: "?wc v = Some ?c"
    by (simp add: count_map_def)
  have b: "(if ?c - 1 = 0 then ?wc(v := None) else ?wc(v \<mapsto> ?c - 1))
             = count_map (\<lambda>w. count_list ws w + g w)"
    by (auto simp: count_map_def fun_eq_iff)
  have "remove_words (v # ws) ?wc
          = remove_words ws (if ?c - 1 = 0 then ?wc(v := None) else ?wc(v \<mapsto> ?c - 1))"
    by (simp only: remove_words.simps a option.case)
  then show ?case by (simp only: b Cons.IH)
qed

lemma add_words_count_map:
  assumes "\<forall>w \<in> set ws. plain_name w" "g ''hasOwnProperty'' = 0"
  shows "add_words ws (count_map g) = Inr (count_map (\<lambda>w. count_list ws w + g w))"
  using assms
proof (induction ws arbitrary: g)
  case Nil
  then show ?case by simp
next
  case (Cons v ws)
  let ?g = "g(v := g v + 1)"
  have v: "v \<noteq> ''hasOwnProperty''" "v \<noteq> ''__proto__''"
    using Cons.prems(1) by (simp_all add: plain_name_def)
  have h: "has_own_property (count_map g) v = Inr (count_map g v \<noteq> None)"
    using Cons.prems(2) by (simp add: has_own_property_def count_map_def)
  have a: "(case count_map g v of Some c \<Rightarrow> (count_map g)(v \<mapsto> c + 1) | None \<Rightarrow> store (count_map g) v 1)
          = count_map ?g"
    using v by (auto simp: count_map_def fun_eq_iff store_def)
  have "add_words (v # ws) (count_map g) = add_words ws (count_map ?g)"
    by (simp add: h a)
  also have "\<dots> = Inr (count_map (\<lambda>w. count_list ws w + ?g w))"
    using Cons.prems v by (intro Cons.IH) simp_all
  also have "count_map (\<lambda>w. count_list ws w + ?g w) = count_map (\<lambda>w. count_list (v # ws) w + g w)"
    by (rule arg_cong [where f = count_map]) (auto simp: fun_eq_iff)
  finally show ?case .
qed

lemma count_map_zero: "count_map (\<lambda>w. 0) = Map.empty"
  by (simp add: count_map_def)

lemma remove_doc_maps:
  assumes "assignments s d = Some t" "map_of (tables s) t = Some tb"
    "remove_words ws (word_counts tb) = Inr wc"
  shows "\<exists>s1. remove_doc d (Words ws) s = Inr s1
           \<and> assignments s1 = assignments s
           \<and> map_of (tables s1)
               = (if num_docs tb - 1 = 0 then (map_of (tables s))(t := None)
                  else (map_of (tables s))(t \<mapsto> tb\<lparr>word_counts := wc,
                         num_words := num_words tb - int (length ws),
                         num_docs := num_docs tb - 1\<rparr>))"
  using assms by (simp add: remove_doc_def Let_def update_conv' delete_conv')

lemma add_doc_maps:
  assumes "add_words ws (word_counts (case map_of (tables s) t of Some tb \<Rightarrow> tb | None \<Rightarrow> empty_table))
             = Inr wc"
  shows "\<exists>s'. add_doc d (Words ws) t s = Inr s'
     \<and> assignments s' = store (assignments s) d t
     \<and> map_of (tables s')
       = (map_of (tables s))
           (t \<mapsto> (case map_of (tables s) t of Some tb \<Rightarrow> tb | None \<Rightarrow> empty_table)
                  \<lparr>word_counts := wc,
                   num_docs := num_docs (case map_of (tables s) t of Some tb \<Rightarrow> tb | None \<Rightarrow> empty_table) + 1,
                   num_words := num_words (case map_of (tables s) t of Some tb \<Rightarrow> tb | None \<Rightarrow> empty_table)
                                + int (length ws)\<rparr>)"
  using assms by (auto simp: add_doc_def Let_def update_conv' split: option.splits)

lemma seated_at_hole:
  "assignments s d = Some t \<Longrightarrow> (\<lambda>d'. seated_at {} s t d' \<and> d' \<noteq> d) = seated_at {d} s t"
  by (auto simp: seated_at_def fun_eq_iff)

lemma seated_at_other_table:
  "assignments s d = Some t \<Longrightarrow> t' \<noteq> t \<Longrightarrow> seated_at {d} s t' = seated_at {} s t'"
  by (auto simp: seated_at_def fun_eq_iff)

lemma consistent_corpus:
  "consistent c H s \<Longrightarrow> seated_at H s t d \<Longrightarrow> \<exists>ws. map_of c d = Some ws"
  unfolding consistent_def by blast

lemma consistent_table:
  "consistent c H s \<Longrightarrow> seated_at H s t d \<Longrightarrow> \<exists>tb. map_of (tables s) t = Some tb"
  unfolding consistent_def by blast

lemma consistent_word_counts:
  "consistent c H s \<Longrightarrow> map_of (tables s) t = Some tb \<Longrightarrow>
     word_counts tb = count_map (\<lambda>w. total_over c (seated_at H s t) (\<lambda>ws. count_list ws w))"
  unfolding consistent_def by blast

lemma consistent_num_docs:
  "consistent c H s \<Longrightarrow> map_of (tables s) t = Some tb \<Longrightarrow>
     num_docs tb = int (total_over c (seated_at H s t) (\<lambda>ws. 1))"
  unfolding consistent_def by blast

lemma consistent_plain_word_counts:
  assumes "plain_corpus c" "consistent c H s" "map_of (tables s) t = Some tb"
  shows "word_counts tb ''hasOwnProperty'' = None"
proof -
  have "total_over c (seated_at H s t) (\<lambda>ws. count_list ws ''hasOwnProperty'') = 0"
    using assms(1) by (rule plain_corpus_no_word) (simp add: plain_name_def)
  then show ?thesis
    using consistent_word_counts [OF assms(2,3)] by (simp add: count_map_def)
qed

lemma consistent_plain_assignments:
  assumes "plain_corpus c" "consistent c {} s"
  shows "assignments s ''hasOwnProperty'' = None"
proof (rule ccontr)
  assume "assignments s ''hasOwnProperty'' \<noteq> None"
  then obtain t where "seated_at {} s t ''hasOwnProperty''" by (auto simp: seated_at_def)
  from consistent_corpus [OF assms(2) this] obtain ws where "map_of c ''hasOwnProperty'' = Some ws" ..
  from plain_corpus_doc [OF assms(1) this] show False by (simp add: plain_name_def)
qed

lemma remove_doc_consistent:
  assumes dc: "distinct (map fst c)" and con: "consistent c {} s"
    and w: "map_of c d = Some ws" and a: "assignments s d = Some t"
  shows "\<exists>s1. remove_doc d (Words ws) s = Inr s1 \<and> consistent c {d} s1"
proof -
  have sd: "seated_at {} s t d" using a by (simp add: seated_at_def)
  from consistent_table [OF con sd] obtain tb where tb: "map_of (tables s) t = Some tb" ..
  let ?occ = "\<lambda>H t w. total_over c (seated_at H s t) (\<lambda>ws. count_list ws w)"
  let ?num = "\<lambda>H t. total_over c (seated_at H s t) (\<lambda>ws. 1)"
  have split: "total_over c (seated_at {} s t) val = val ws + total_over c (seated_at {d} s t) val" for val
    using total_over_split [where sel = "seated_at {} s t" and val = val, OF dc w sd]
    by (simp add: seated_at_hole [OF a])
  have wc: "word_counts tb = count_map (?occ {} t)"
    by (rule consistent_word_counts [OF con tb])
  have nd: "num_docs tb = int (?num {} t)"
    by (rule consistent_num_docs [OF con tb])
  have wc': "word_counts tb = count_map (\<lambda>w. count_list ws w + ?occ {d} t w)"
    unfolding wc by (rule arg_cong [where f = count_map]) (simp add: split fun_eq_iff)
  have nd': "num_docs tb - 1 = int (?num {d} t)"
    unfolding nd by (simp add: split)
  have rw: "remove_words ws (word_counts tb) = Inr (count_map (?occ {d} t))"
    unfolding wc' by (rule remove_words_count_map)
  let ?tb' = "tb\<lparr>word_counts := count_map (?occ {d} t),
                   num_words := num_words tb - int (length ws),
                   num_docs := num_docs tb - 1\<rparr>"
  from remove_doc_maps [OF a tb rw] obtain s1 where
    r: "remove_doc d (Words ws) s = Inr s1" and as: "assignments s1 = assignments s" and
    tm: "map_of (tables s1) = (if num_docs tb - 1 = 0 then (map_of (tables s))(t := None)
                                else (map_of (tables s))(t \<mapsto> ?tb'))"
    by blast
  have same: "seated_at H s1 = seated_at H s" for H
    by (simp add: seated_at_def fun_eq_iff as)
  have "consistent c {d} s1"
    unfolding consistent_def same
  proof (intro conjI allI impI)
    fix d' t'
    assume s': "seated_at {d} s t' d'"
    then have "seated_at {} s t' d'" by (simp add: seated_at_def)
    from consistent_corpus [OF con this] show "map_of c d' \<noteq> None" by auto
  next
    fix d' t'
    assume s': "seated_at {d} s t' d'"
    then have old: "seated_at {} s t' d'" by (simp add: seated_at_def)
    from consistent_corpus [OF con old] obtain ws' where "map_of c d' = Some ws'" ..
    then have mem: "(d', ws') \<in> set c" by (rule map_of_SomeD)
    from consistent_table [OF con old] have ex: "map_of (tables s) t' \<noteq> None" by auto
    show "map_of (tables s1) t' \<noteq> None"
    proof (cases "t' = t")
      case True
      have "1 \<le> ?num {d} t"
        using total_over_member [OF mem, of "seated_at {d} s t" "\<lambda>ws. 1"] s' True by simp
      with nd' have "num_docs tb - 1 \<noteq> 0" by simp
      with tm True show ?thesis by simp
    next
      case False
      with tm ex show ?thesis by simp
    qed
  next
    fix t' tb'
    assume m: "map_of (tables s1) t' = Some tb'"
    show "word_counts tb' = count_map (?occ {d} t')"
    proof (cases "t' = t")
      case True
      with m tm have "tb' = ?tb'" by (auto split: if_splits)
      with True show ?thesis by simp
    next
      case False
      with m tm have "map_of (tables s) t' = Some tb'" by (auto split: if_splits)
      then have "word_counts tb' = count_map (?occ {} t')" by (rule consistent_word_counts [OF con])
      then show ?thesis by (simp add: seated_at_other_table [OF a False])
    qed
  next
    fix t' tb'
    assume m: "map_of (tables s1) t' = Some tb'"
    show "num_docs tb' = int (?num {d} t')"
    proof (cases "t' = t")
      case True
      with m tm have "tb' = ?tb'" by (auto split: if_splits)
      with True nd' show ?thesis by simp
    next
      case False
      with m tm have "map_of (tables s) t' = Some tb'" by (auto split: if_splits)
      then have "num_docs tb' = int (?num {} t')" by (rule consistent_num_docs [OF con])
      then show ?thesis by (simp add: seated_at_other_table [OF a False])
    qed
  qed
  with r show ?thesis by blast
qed

lemma consistent_unseated:
  "consistent c {} s \<Longrightarrow> assignments s d = None \<Longrightarrow> consistent c {d} s"
proof -
  assume con: "consistent c {} s" and un: "assignments s d = None"
  have "seated_at {d} s = seated_at {} s"
    using un by (auto simp: seated_at_def fun_eq_iff)
  with con show ?thesis by (simp add: consistent_def)
qed

lemma add_doc_consistent:
  assumes pc: "plain_corpus c" and con: "consistent c {d} s"
    and w: "map_of c d = Some ws"
  shows "\<exists>s'. add_doc d (Words ws) t s = Inr s' \<and> consistent c {} s'
            \<and> assignments s' = (assignments s)(d \<mapsto> t)"
proof -
  have dc: "distinct (map fst c)" using pc by (rule plain_corpus_distinct)
  have pd: "plain_name d" and pw: "\<forall>w \<in> set ws. plain_name w"
    using plain_corpus_doc [OF pc w] by simp_all
  let ?tb0 = "case map_of (tables s) t of Some tb \<Rightarrow> tb | None \<Rightarrow> empty_table"
  let ?occ = "\<lambda>t w. total_over c (seated_at {d} s t) (\<lambda>ws. count_list ws w)"
  let ?num = "\<lambda>t. total_over c (seated_at {d} s t) (\<lambda>ws. 1)"
  let ?wc = "count_map (\<lambda>w. count_list ws w + ?occ t w)"
  let ?tb' = "?tb0\<lparr>word_counts := ?wc,
                    num_docs := num_docs ?tb0 + 1,
                    num_words := num_words ?tb0 + int (length ws)\<rparr>"
  have tb0: "word_counts ?tb0 = count_map (?occ t) \<and> num_docs ?tb0 = int (?num t)"
  proof (cases "map_of (tables s) t")
    case None
    have "\<not> seated_at {d} s t d'" for d'
      using consistent_table [OF con, of t d'] None by auto
    then have "total_over c (seated_at {d} s t) val = 0" for val
      by (intro total_over_none) simp
    with None show ?thesis by (simp add: empty_table_def count_map_zero)
  next
    case (Some tb)
    with consistent_word_counts [OF con Some] consistent_num_docs [OF con Some]
    show ?thesis by simp
  qed
  have "?occ t ''hasOwnProperty'' = 0"
    using pc by (rule plain_corpus_no_word) (simp add: plain_name_def)
  with pw have "add_words ws (count_map (?occ t)) = Inr ?wc"
    by (rule add_words_count_map)
  then have aw: "add_words ws (word_counts ?tb0) = Inr ?wc" using tb0 by simp
  from add_doc_maps [OF aw, of d] obtain s' where
    r: "add_doc d (Words ws) t s = Inr s'" and
    as0: "assignments s' = store (assignments s) d t" and
    tm: "map_of (tables s') = (map_of (tables s))(t \<mapsto> ?tb')"
    by blast
  have as: "assignments s' = (assignments s)(d \<mapsto> t)"
    using as0 pd by (simp add: store_def plain_name_def)
  have here: "seated_at {} s' t d"
    by (simp add: seated_at_def as)
  have hole: "(\<lambda>d'. seated_at {} s' t' d' \<and> d' \<noteq> d) = seated_at {d} s t'" for t'
    by (auto simp: seated_at_def as fun_eq_iff)
  have other: "seated_at {} s' t' = seated_at {d} s t'" if "t' \<noteq> t" for t'
    using that by (auto simp: seated_at_def as fun_eq_iff)
  have split: "total_over c (seated_at {} s' t) val = val ws + total_over c (seated_at {d} s t) val"
    for val
    using total_over_split [where sel = "seated_at {} s' t" and val = val, OF dc w here]
    by (simp add: hole)
  have "consistent c {} s'"
    unfolding consistent_def
  proof (intro conjI allI impI)
    fix d' t'
    assume s': "seated_at {} s' t' d'"
    show "map_of c d' \<noteq> None"
    proof (cases "d' = d")
      case True
      with w show ?thesis by simp
    next
      case False
      with s' have "seated_at {d} s t' d'" by (simp add: seated_at_def as)
      from consistent_corpus [OF con this] show ?thesis by auto
    qed
  next
    fix d' t'
    assume s': "seated_at {} s' t' d'"
    show "map_of (tables s') t' \<noteq> None"
    proof (cases "t' = t")
      case True
      then show ?thesis by (simp add: tm)
    next
      case False
      with s' have "d' \<noteq> d" by (auto simp: seated_at_def as)
      with s' have "seated_at {d} s t' d'" by (simp add: seated_at_def as)
      from consistent_table [OF con this] False show ?thesis by (auto simp: tm)
    qed
  next
    fix t' tb'
    assume m: "map_of (tables s') t' = Some tb'"
    show "word_counts tb' = count_map (\<lambda>w. total_over c (seated_at {} s' t') (\<lambda>ws. count_list ws w))"
    proof (cases "t' = t")
      case True
      with m have "tb' = ?tb'" by (simp add: tm)
      then have "word_counts tb' = ?wc" by simp
      then show ?thesis using True by (simp add: split)
    next
      case False
      with m have "map_of (tables s) t' = Some tb'" by (simp add: tm)
      from consistent_word_counts [OF con this] show ?thesis by (simp add: other [OF False])
    qed
  next
    fix t' tb'
    assume m: "map_of (tables s') t' = Some tb'"
    show "num_docs tb' = int (total_over c (seated_at {} s' t') (\<lambda>ws. 1))"
    proof (cases "t' = t")
      case True
      with m have "tb' = ?tb'" by (simp add: tm)
      then have "num_docs tb' = int (?num t) + 1"
        using tb0 by simp
      then show ?thesis using True by (simp add: split)
    next
      case False
      with m have "map_of (tables s) t' = Some tb'" by (simp add: tm)
      from consistent_num_docs [OF con this] show ?thesis by (simp add: other [OF False])
    qed
  qed
  with r as show ?thesis by blast
qed

text \<open>
  For a plain corpus \<open>initialize_state\<close> returns a state, and from then on every
  reseat of a corpus document, in either module and with any draw, returns a state:
  the runs over corpus documents never stop.
\<close>

lemma consistent_cong:
  assumes "assignments s' = assignments s" "tables s' = tables s"
  shows "consistent c H s' = consistent c H s"
proof -
  have "seated_at H s' = seated_at H s"
    using assms(1) by (simp add: seated_at_def fun_eq_iff)
  then show ?thesis using assms(2) by (simp add: consistent_def)
qed

lemma count_vocab_plain:
  assumes "\<forall>w \<in> set ws. plain_name w" "vocab s ''hasOwnProperty'' = None"
  shows "\<exists>s'. count_vocab ws s = Inr s' \<and> assignments s' = assignments s \<and> tables s' = tables s
            \<and> nextID s' = nextID s \<and> vocab s' ''hasOwnProperty'' = None"
  using assms
proof (induction ws arbitrary: s)
  case Nil
  then show ?case by simp
next
  case (Cons v ws)
  have v: "v \<noteq> ''hasOwnProperty''" "v \<noteq> ''__proto__''"
    using Cons.prems(1) by (simp_all add: plain_name_def)
  let ?s1 = "case vocab s v of
               Some c \<Rightarrow> s\<lparr>vocab := (vocab s)(v \<mapsto> c + 1)\<rparr>
             | None \<Rightarrow> s\<lparr>W := W s + 1, vocab := store (vocab s) v 1\<rparr>"
  have step: "count_vocab (v # ws) s = count_vocab ws ?s1"
    using Cons.prems(2) by (simp add: has_own_property_def)
  have f: "assignments ?s1 = assignments s" "tables ?s1 = tables s" "nextID ?s1 = nextID s"
    "vocab ?s1 ''hasOwnProperty'' = None"
    using v Cons.prems(2) by (auto simp: store_def split: option.splits)
  from Cons.IH [of ?s1] Cons.prems(1) f(4) obtain s' where
    "count_vocab ws ?s1 = Inr s'" "assignments s' = assignments ?s1" "tables s' = tables ?s1"
    "nextID s' = nextID ?s1" "vocab s' ''hasOwnProperty'' = None"
    by auto
  then show ?case unfolding step using f by auto
qed

lemma add_doc_vocab: "add_doc d words t s = Inr s' \<Longrightarrow> vocab s' = vocab s"
  by (auto simp: add_doc_def Let_def split: option.splits words_value.splits sum.splits)

lemma add_doc_distinct:
  "add_doc d words t s = Inr s' \<Longrightarrow> distinct (map fst (tables s)) \<Longrightarrow> distinct (map fst (tables s'))"
  by (auto simp: add_doc_def Let_def distinct_update split: option.splits words_value.splits sum.splits)

lemma remove_doc_distinct:
  "remove_doc d words s = Inr s' \<Longrightarrow> distinct (map fst (tables s)) \<Longrightarrow> distinct (map fst (tables s'))"
  by (auto dest!: remove_doc_Inr simp: distinct_update distinct_delete split: if_splits)

lemma init_loop_consistent:
  assumes pc: "plain_corpus c"
  shows "distinct (map fst rest) \<Longrightarrow> set rest \<subseteq> set c \<Longrightarrow> consistent c {} s
     \<Longrightarrow> distinct (map fst (tables s))
     \<Longrightarrow> \<forall>d \<in> fst ` set rest. assignments s d = None \<Longrightarrow> vocab s ''hasOwnProperty'' = None
     \<Longrightarrow> \<exists>s'. init_loop rest s = Inr s' \<and> consistent c {} s' \<and> distinct (map fst (tables s'))"
proof (induction rest arbitrary: s)
  case Nil
  then show ?case by simp
next
  case (Cons p rest)
  obtain d ws where p: "p = (d, ws)" by (cases p)
  have dc: "distinct (map fst c)" using pc by (rule plain_corpus_distinct)
  have w: "map_of c d = Some ws"
    using Cons.prems(2) p dc by (intro map_of_is_SomeI) auto
  have pw: "\<forall>w \<in> set ws. plain_name w" using plain_corpus_doc [OF pc w] by simp
  from count_vocab_plain [OF pw Cons.prems(6)] obtain s1 where
    s1: "count_vocab ws s = Inr s1" and a1: "assignments s1 = assignments s"
    and t1: "tables s1 = tables s" and v1: "vocab s1 ''hasOwnProperty'' = None"
    by blast
  have "consistent c {} s1"
    using Cons.prems(3) consistent_cong [OF a1 t1] by simp
  moreover have "assignments s1 d = None"
    using Cons.prems(5) p a1 by simp
  ultimately have "consistent c {d} s1" by (rule consistent_unseated)
  from add_doc_consistent [OF pc this w, of "nextID s1"] obtain s2 where
    s2: "add_doc d (Words ws) (nextID s1) s1 = Inr s2" and c2: "consistent c {} s2"
    and a2: "assignments s2 = (assignments s1)(d \<mapsto> nextID s1)"
    by blast
  have d2: "distinct (map fst (tables s2))"
    using add_doc_distinct [OF s2] Cons.prems(4) t1 by simp
  have v2: "vocab s2 ''hasOwnProperty'' = None"
    using add_doc_vocab [OF s2] v1 by simp
  have n2: "\<forall>d' \<in> fst ` set rest. assignments s2 d' = None"
  proof
    fix d' assume d': "d' \<in> fst ` set rest"
    with Cons.prems(1) p have "d' \<noteq> d" by auto
    moreover from d' Cons.prems(5) have "assignments s d' = None" by auto
    ultimately show "assignments s2 d' = None" by (simp add: a2 a1)
  qed
  have "\<exists>s'. init_loop rest s2 = Inr s' \<and> consistent c {} s' \<and> distinct (map fst (tables s'))"
    using Cons.prems(1,2) c2 d2 n2 v2 by (intro Cons.IH) auto
  then show ?case using p s1 s2 by simp
qed

lemma initialize_state_consistent:
  assumes "plain_corpus c"
  shows "\<exists>s. initialize_state c al be = Inr s \<and> consistent c {} s \<and> distinct (map fst (tables s))"
  unfolding initialize_state_def
  using plain_corpus_distinct [OF assms]
  by (intro init_loop_consistent [OF assms]) (simp_all add: consistent_def seated_at_def)

lemma table_weights_succeed:
  "\<forall>tb \<in> snd ` set xs. \<exists>w. weight tb = Inr w \<Longrightarrow> \<exists>ws. table_weights weight xs = Inr ws"
proof (induction xs)
  case Nil
  then show ?case by simp
next
  case (Cons p xs)
  obtain k tb where p: "p = (k, tb)" by (cases p)
  from Cons.prems p obtain w where w: "weight tb = Inr w" by auto
  from Cons.IH Cons.prems obtain ws where "table_weights weight xs = Inr ws" by auto
  then show ?case using p w by simp
qed

lemma likelihood_succeeds:
  assumes "\<forall>w \<in> set ws. plain_name w" "wc ''hasOwnProperty'' = None"
  shows "(\<exists>p. prob_of_words_given_table (Words ws) wc wt be Wv = Inr p)
       \<and> (\<exists>p. log_prob_words_given_table (Words ws) wc wt be Wv = Inr p)"
proof -
  have a: "count_list ws ''__proto__'' \<le> 1"
    using assms(1) by (auto simp: plain_name_def count_list_0_iff [THEN iffD2])
  have "''hasOwnProperty'' \<notin> set ws" using assms(1) by (auto simp: plain_name_def)
  then have b: "''hasOwnProperty'' \<notin> set (butlast ws)" by (auto dest: in_set_butlastD)
  have h: "ws \<noteq> [] \<longrightarrow> wc ''hasOwnProperty'' = None \<and> Map.empty ''hasOwnProperty'' = (None :: int option)"
    using assms(2) by simp
  show ?thesis
    using prob_loop_prod [where lc = Map.empty and wc = wc and ws = ws and wt = wt
          and be = be and Wv = Wv and j = 0 and p = 1, OF _ a b h]
      log_prob_loop_sum [where lc = Map.empty and wc = wc and ws = ws and wt = wt
          and be = be and Wv = Wv and j = 0 and p = 0, OF _ a b h]
    by (simp add: prob_of_words_given_table_def log_prob_words_given_table_def)
qed

lemma update_not_Nil: "AList.update k v al \<noteq> []"
  by (cases al) auto

lemma reseat_succeeds:
  assumes pc: "plain_corpus c" and con: "consistent c {} s"
    and ds: "distinct (map fst (tables s))" and w: "map_of c d = Some ws"
  shows "(\<exists>s'. sample_table d c u s = Inr s' \<and> consistent c {} s' \<and> distinct (map fst (tables s')))
       \<and> (\<exists>s'. sample_table_log num2str d c u s = Inr s' \<and> consistent c {} s'
                \<and> distinct (map fst (tables s')))"
proof -
  have dc: "distinct (map fst c)" using pc by (rule plain_corpus_distinct)
  have pw: "\<forall>w \<in> set ws. plain_name w" using plain_corpus_doc [OF pc w] by simp
  have g: "corpus_get c d = Words ws" by (simp add: corpus_get_def w)
  have hop: "has_own_property (assignments s) d = Inr (assignments s d \<noteq> None)"
    using consistent_plain_assignments [OF pc con] by (rule has_own_property_plain)
  obtain s1 where s1: "(if assignments s d \<noteq> None then remove_doc d (Words ws) s else Inr s) = Inr s1"
    and c1: "consistent c {d} s1" and d1: "distinct (map fst (tables s1))"
  proof (cases "assignments s d")
    case None
    then show ?thesis using that con ds by (simp add: consistent_unseated)
  next
    case (Some t)
    from remove_doc_consistent [OF dc con w Some] obtain s1 where
      r: "remove_doc d (Words ws) s = Inr s1" and "consistent c {d} s1"
      by blast
    moreover have "distinct (map fst (tables s1))" using remove_doc_distinct [OF r ds] .
    ultimately show ?thesis using Some that by simp
  qed
  have plain: "word_counts tb ''hasOwnProperty'' = None" if "(k, tb) \<in> set (for_in (tables s1))" for k tb
  proof -
    from that have "(k, tb) \<in> set (tables s1)" by simp
    with d1 have "map_of (tables s1) k = Some tb" by (intro map_of_is_SomeI)
    with pc c1 show ?thesis by (rule consistent_plain_word_counts)
  qed
  have a: "\<exists>s'. sample_table d c u s = Inr s' \<and> consistent c {} s' \<and> distinct (map fst (tables s'))"
  proof -
    let ?weight = "\<lambda>tb. map_sum id
                     (\<lambda>p_o_w. prob_of_table (num_docs tb) (total_docs s1) (alpha s1) * p_o_w)
                     (prob_of_words_given_table (Words ws) (word_counts tb) (num_words tb)
                        (beta s1) (W s1))"
    have "\<forall>tb \<in> snd ` set (for_in (tables s1)). \<exists>x. ?weight tb = Inr x"
    proof
      fix tb assume "tb \<in> snd ` set (for_in (tables s1))"
      then obtain k where "(k, tb) \<in> set (for_in (tables s1))" by auto
      from likelihood_succeeds [where ws = ws and wc = "word_counts tb" and wt = "num_words tb"
            and be = "beta s1" and Wv = "W s1", OF pw plain [OF this]]
      show "\<exists>x. ?weight tb = Inr x" by auto
    qed
    from table_weights_succeed [OF this]
    obtain occupied where tw: "table_weights ?weight (for_in (tables s1)) = Inr occupied"
      by blast
    obtain p_o_w where pn: "prob_of_words_given_table (Words ws) Map.empty 0 (beta s1) (W s1) = Inr p_o_w"
      using likelihood_succeeds [where ws = ws and wc = Map.empty and wt = 0
            and be = "beta s1" and Wv = "W s1", OF pw] by auto
    let ?ps = "AList.update (nextID s1) (prob_of_table 0 (total_docs s1) (alpha s1) * p_o_w) occupied"
    from sample_result [OF update_not_Nil, where u = u] obtain k where k: "sample u ?ps = Some k"
      by blast
    from add_doc_consistent [OF pc c1 w, of k] obtain s' where
      s': "add_doc d (Words ws) k s1 = Inr s'" and c': "consistent c {} s'"
      by blast
    have "sample_table d c u s = Inr s'"
      using s1 tw pn k s' by (simp add: sample_table_def g hop Let_def)
    then show ?thesis using c' add_doc_distinct [OF s' d1] by blast
  qed
  have b: "\<exists>s'. sample_table_log num2str d c u s = Inr s' \<and> consistent c {} s'
                \<and> distinct (map fst (tables s'))"
  proof -
    let ?weight = "\<lambda>tb. map_sum id
                     (\<lambda>lpw. log_prob_table (num_docs tb) (total_docs s1) (alpha s1) + lpw)
                     (log_prob_words_given_table (Words ws) (word_counts tb) (num_words tb)
                        (beta s1) (W s1))"
    have "\<forall>tb \<in> snd ` set (for_in (tables s1)). \<exists>x. ?weight tb = Inr x"
    proof
      fix tb assume "tb \<in> snd ` set (for_in (tables s1))"
      then obtain k where "(k, tb) \<in> set (for_in (tables s1))" by auto
      from likelihood_succeeds [where ws = ws and wc = "word_counts tb" and wt = "num_words tb"
            and be = "beta s1" and Wv = "W s1", OF pw plain [OF this]]
      show "\<exists>x. ?weight tb = Inr x" by auto
    qed
    from table_weights_succeed [OF this]
    obtain occupied where tw: "table_weights ?weight (for_in (tables s1)) = Inr occupied"
      by blast
    obtain lpw where pn: "log_prob_words_given_table (Words ws) Map.empty 0 (beta s1) (W s1) = Inr lpw"
      using likelihood_succeeds [where ws = ws and wc = Map.empty and wt = 0
            and be = "beta s1" and Wv = "W s1", OF pw] by auto
    let ?ps = "map (\<lambda>(tableID, w). (w, tableID)) occupied
               @ [(log_prob_table 0 (total_docs s1) (alpha s1) + lpw, nextID s1)]"
    have "?ps \<noteq> []" by simp
    from log_sample_result [OF this, where num2str = num2str and u = u]
    obtain k where k: "log_sample num2str u ?ps = Some k"
      by blast
    from add_doc_consistent [OF pc c1 w, of k] obtain s' where
      s': "add_doc d (Words ws) k s1 = Inr s'" and c': "consistent c {} s'"
      by blast
    have "sample_table_log num2str d c u s = Inr s'"
      using s1 tw pn k s' by (simp add: sample_table_log_def g hop Let_def)
    then show ?thesis using c' add_doc_distinct [OF s' d1] by blast
  qed
  from a b show ?thesis ..
qed

lemma corpus_run_consistent:
  assumes "plain_corpus c" "corpus_run c al be s"
  shows "consistent c {} s \<and> distinct (map fst (tables s))"
  using assms(2)
proof (induction rule: corpus_run.induct)
  case (start s)
  then show ?case using initialize_state_consistent [OF assms(1), of al be] by auto
next
  case (step s docID ws u s')
  then show ?case
    using reseat_succeeds [OF assms(1), of s docID ws u] by auto
next
  case (step_log s docID ws num2str u s')
  then show ?case
    using reseat_succeeds [OF assms(1), of s docID ws u num2str] by auto
qed

lemma corpus_run_reachable: "corpus_run c al be s \<Longrightarrow> reachable c al be s"
  by (induction rule: corpus_run.induct) (auto intro: reachable.intros)

lemma initialize_state_succeeds:
  "plain_corpus c \<Longrightarrow> \<exists>s. initialize_state c al be = Inr s \<and> corpus_run c al be s"
  using initialize_state_consistent [of c al be] by (auto intro: corpus_run.start)

lemma corpus_run_reseat_succeeds:
  assumes "plain_corpus c" "corpus_run c al be s" "map_of c d = Some ws"
  shows "(\<exists>s'. sample_table d c u s = Inr s' \<and> corpus_run c al be s')
       \<and> (\<exists>s'. sample_table_log num2str d c u s = Inr s' \<and> corpus_run c al be s')"
proof -
  from corpus_run_consistent [OF assms(1,2)] have
    "consistent c {} s" "distinct (map fst (tables s))" by simp_all
  from reseat_succeeds [OF assms(1) this assms(3), of u num2str] obtain s' s'' where
    "sample_table d c u s = Inr s'" "sample_table_log num2str d c u s = Inr s''"
    by blast
  then show ?thesis
    using corpus_run.step [OF assms(2,3)] corpus_run.step_log [OF assms(2,3)] by blast
qed

section \<open>Further facts\<close>

text \<open>
  Every completed \<open>sample_table\<close> raises \<open>total_docs\<close> by one, whether or not the
  document was seated before: \<open>add_doc\<close> counts it in and \<open>remove_doc\<close> never counts it
  out. Over the real numbers the value of the log-normaliser does not depend on the
  constant that is subtracted inside and added outside.
\<close>

lemma sample_table_total_docs:
  "sample_table docID c u s = Inr s' \<Longrightarrow> total_docs s' = total_docs s + 1"
proof -
  assume a: "sample_table docID c u s = Inr s'"
  from sample_table_Inr [OF a] obtain s1 t where
    s1: "s1 = s \<and> assignments s docID = None \<or> remove_doc docID (corpus_get c docID) s = Inr s1"
    and s': "add_doc docID (corpus_get c docID) t s1 = Inr s'"
    by blast
  have "total_docs s1 = total_docs s"
    using s1 remove_doc_total_docs [of docID "corpus_get c docID" s]
    by (auto simp: outcome_state_def)
  then show ?thesis using add_doc_total_docs [OF s'] by simp
qed

lemma sample_table_log_total_docs:
  "sample_table_log num2str docID c u s = Inr s' \<Longrightarrow> total_docs s' = total_docs s + 1"
proof -
  assume a: "sample_table_log num2str docID c u s = Inr s'"
  from sample_table_log_Inr [OF a] obtain s1 t where
    s1: "s1 = s \<and> assignments s docID = None \<or> remove_doc docID (corpus_get c docID) s = Inr s1"
    and s': "add_doc docID (corpus_get c docID) t s1 = Inr s'"
    by blast
  have "total_docs s1 = total_docs s"
    using s1 remove_doc_total_docs [of docID "corpus_get c docID" s]
    by (auto simp: outcome_state_def)
  then show ?thesis using add_doc_total_docs [OF s'] by simp
qed

lemma log_norm_const_any_constant:
  assumes "ps \<noteq> []"
  shows "m + ln (exp_sum m ps) = m' + ln (exp_sum m' ps)"
proof -
  let ?S = "sum_list (map (\<lambda>(x, k). exp x) ps)"
  have S: "0 < ?S" using assms by (rule sum_list_exp_pos)
  have "a + ln (exp_sum a ps) = ln ?S" for a
    using S by (simp add: exp_sum_def sum_list_exp_shift ln_div)
  then show ?thesis by simp
qed

text \<open>
  Where the model stops at a NaN counter: the reseat of the identifier \<open>__proto__\<close>,
  when the corpus has no such key, runs up to the \<open>num_words\<close> update of \<open>add_doc\<close>.
  The state at that point has no empty cluster either.
\<close>

lemma add_doc_no_length_no_empty:
  assumes "no_empty_cluster s"
  shows "no_empty_cluster (outcome_state (add_doc docID No_length t s))"
proof (cases "map_of (tables s) t")
  case None
  let ?tb = "empty_table\<lparr>num_docs := num_docs empty_table + 1\<rparr>"
  have "tables (outcome_state (add_doc docID No_length t s))
          = AList.update t ?tb (AList.update t empty_table (tables s))"
    using None by (simp add: add_doc_def outcome_state_def update_conv')
  moreover have "set (AList.update t ?tb (AList.update t empty_table (tables s)))
                   \<subseteq> insert (t, ?tb) (set (tables s))"
    by (simp add: update_last) (rule set_update_subset)
  moreover have "0 < num_docs ?tb" by (simp add: empty_table_def)
  ultimately show ?thesis
    using assms by (fastforce simp: no_empty_cluster_def)
next
  case (Some tb)
  let ?tb = "tb\<lparr>num_docs := num_docs tb + 1\<rparr>"
  from Some have "(t, tb) \<in> set (tables s)" by (rule map_of_SomeD)
  with assms have "0 < num_docs tb" by (auto simp: no_empty_cluster_def)
  then have "0 < num_docs ?tb" by simp
  moreover have "tables (outcome_state (add_doc docID No_length t s)) = AList.update t ?tb (tables s)"
    using Some by (simp add: add_doc_def outcome_state_def)
  ultimately show ?thesis
    using assms set_update_subset [of t ?tb "tables s"]
    by (fastforce simp: no_empty_cluster_def)
qed

lemma table_weights_constant:
  "(\<And>tb. \<exists>w. weight tb = Inr w) \<Longrightarrow> \<exists>ws. table_weights weight xs = Inr ws"
  by (rule table_weights_succeed) simp

lemma reseat_proto_stops:
  assumes "map_of c ''__proto__'' = None" "assignments s ''hasOwnProperty'' = None"
    "assignments s ''__proto__'' = None" "no_empty_cluster s"
  shows "\<exists>s'. sample_table ''__proto__'' c u s = Inl (NaN_count, s') \<and> no_empty_cluster s'"
proof -
  have g: "corpus_get c ''__proto__'' = No_length"
    using assms(1) by (simp add: corpus_get_def object_prototype_def)
  let ?weight = "\<lambda>tb. map_sum id
                   (\<lambda>p_o_w. prob_of_table (num_docs tb) (total_docs s) (alpha s) * p_o_w)
                   (prob_of_words_given_table No_length (word_counts tb) (num_words tb)
                      (beta s) (W s))"
  have "\<exists>w. ?weight tb = Inr w" for tb by (simp add: prob_of_words_given_table_def)
  from table_weights_constant [of ?weight "for_in (tables s)", OF this]
  obtain occupied where tw: "table_weights ?weight (for_in (tables s)) = Inr occupied" by blast
  let ?ps = "AList.update (nextID s) (prob_of_table 0 (total_docs s) (alpha s) * 1) occupied"
  from sample_result [OF update_not_Nil, where u = u] obtain k where k: "sample u ?ps = Some k"
    by blast
  have st: "sample_table ''__proto__'' c u s = add_doc ''__proto__'' No_length k s"
    using tw k assms(2,3)
    by (simp add: sample_table_def g has_own_property_def Let_def prob_of_words_given_table_def)
  have "\<exists>s'. add_doc ''__proto__'' No_length k s = Inl (NaN_count, s')"
    by (simp add: add_doc_def Let_def)
  then obtain s' where ad: "add_doc ''__proto__'' No_length k s = Inl (NaN_count, s')" ..
  then have "s' = outcome_state (add_doc ''__proto__'' No_length k s)"
    by (simp add: outcome_state_def)
  then have "no_empty_cluster s'"
    using add_doc_no_length_no_empty [OF assms(4), of "''__proto__''" k] by simp
  then show ?thesis using st ad by simp
qed

end
